theory Spec2Isabelle
  imports Main "HOL-Library.Sublist"
begin

section \<open>Strings, lines and numbers\<close>

text \<open>
  The diff pipeline of the server (\<^verbatim>\<open>truncateDiff\<close>, \<^verbatim>\<open>truncateFileSection\<close>,
  \<^verbatim>\<open>matchesGlobPattern\<close>, \<^verbatim>\<open>fileMatchesPatterns\<close>, \<^verbatim>\<open>filterDiff\<close>) works on
  JavaScript strings. A string is modelled as a \<^typ>\<open>string\<close>; the characters the code
  tells apart are the line feed, the carriage return, and the ASCII characters of the
  literals it compares with.
\<close>

definition newline :: char where
  "newline = CHR 0x0A"

definition carriageReturn :: char where
  "carriageReturn = CHR 0x0D"

definition backslash :: char where
  "backslash = CHR 0x5C"

text \<open>\<^verbatim>\<open>s.startsWith(p)\<close>\<close>

fun startsWith :: "string \<Rightarrow> string \<Rightarrow> bool" where
  "startsWith s [] = True"
| "startsWith [] (p # ps) = False"
| "startsWith (c # cs) (p # ps) = (c = p \<and> startsWith cs ps)"

text \<open>\<^verbatim>\<open>s.split('\n')\<close>: never empty, the empty string gives one empty line.\<close>

fun splitLines :: "string \<Rightarrow> string list" where
  "splitLines [] = [[]]"
| "splitLines (c # cs) =
     (let ls = splitLines cs
      in if c = newline then [] # ls else (c # hd ls) # tl ls)"

text \<open>\<^verbatim>\<open>lines.join('\n')\<close>\<close>

fun joinLines :: "string list \<Rightarrow> string" where
  "joinLines [] = []"
| "joinLines [l] = l"
| "joinLines (l # k # ls) = l @ newline # joinLines (k # ls)"

text \<open>
  A counter or a limit printed inside a template literal. The numbers printed by the
  pipeline are integers far below \<open>10^21\<close>, where JavaScript prints plain decimal digits.
\<close>

definition digitChar :: "nat \<Rightarrow> char" where
  "digitChar d = ''0123456789'' ! d"

function showNat :: "nat \<Rightarrow> string" where
  "showNat n = (if n < 10 then [digitChar n] else showNat (n div 10) @ [digitChar (n mod 10)])"
  by pat_completeness auto
termination
  by (relation "measure id") auto

declare showNat.simps [simp del]

definition showInt :: "int \<Rightarrow> string" where
  "showInt i = (if i < 0 then CHR ''-'' # showNat (nat (- i)) else showNat (nat i))"

text \<open>
  \<^verbatim>\<open>xs.slice(start, end)\<close> of JavaScript: a negative index counts from the end, and
  both indices are clamped to the array. \<^verbatim>\<open>xs.slice(start)\<close> is \<open>slice xs start (length xs)\<close>.
\<close>

definition slice :: "'a list \<Rightarrow> int \<Rightarrow> int \<Rightarrow> 'a list" where
  "slice xs start stop =
     (let len = int (length xs);
          k = (if start < 0 then max (len + start) 0 else min start len);
          e = (if stop < 0 then max (len + stop) 0 else min stop len)
      in take (nat (e - k)) (drop (nat k) xs))"

definition sliceFrom :: "'a list \<Rightarrow> int \<Rightarrow> 'a list" where
  "sliceFrom xs start = slice xs start (int (length xs))"

section \<open>The file name of a header line\<close>

text \<open>
  \<^verbatim>\<open>line.match(/diff --git a\/(.+) b\/(.+)/)\<close>, read for its second group. The search is
  not anchored: the leftmost position where the pattern matches wins. A dot matches every
  character but a line terminator; both groups are greedy, so the first group is tried
  from its longest run down to one character, and the second group takes the longest run
  of characters a dot matches, which must not be empty.

  Of the four line terminators of JavaScript, the line feed and the carriage return are
  characters of the model; U+2028 and U+2029 are beyond its 8-bit characters, so the dot
  of the model is the dot of the code on the strings the model holds.
\<close>

definition lineTerminator :: "char \<Rightarrow> bool" where
  "lineTerminator c = (c = newline \<or> c = carriageReturn)"

definition dotRun :: "string \<Rightarrow> string" where
  "dotRun s = takeWhile (\<lambda>c. \<not> lineTerminator c) s"

fun tryGroup1 :: "nat \<Rightarrow> string \<Rightarrow> string option" where
  "tryGroup1 0 rest = None"
| "tryGroup1 (Suc n) rest =
     (if startsWith (drop (Suc n) rest) '' b/'' \<and> dotRun (drop (Suc n + 3) rest) \<noteq> []
      then Some (dotRun (drop (Suc n + 3) rest))
      else tryGroup1 n rest)"

definition matchHere :: "string \<Rightarrow> string option" where
  "matchHere s =
     (if startsWith s ''diff --git a/''
      then tryGroup1 (length (dotRun (drop 13 s))) (drop 13 s)
      else None)"

fun matchHeader :: "string \<Rightarrow> string option" where
  "matchHeader [] = None"
| "matchHeader (c # cs) =
     (case matchHere (c # cs) of Some g \<Rightarrow> Some g | None \<Rightarrow> matchHeader cs)"

section \<open>The path matcher\<close>

text \<open>
  \<^verbatim>\<open>matchesGlobPattern\<close> rewrites the pattern into the source of a regular expression in
  five passes and tests the path against it. The first pass puts a backslash before each
  of the characters \<^verbatim>\<open>. + ^ $ { } ( ) | [ ] \\<close>.
\<close>

definition regexSpecial :: "char \<Rightarrow> bool" where
  "regexSpecial c = (c \<in> set ''.+^${}()|[]'' \<or> c = backslash)"

definition escapeRegex :: "string \<Rightarrow> string" where
  "escapeRegex pattern = concat (map (\<lambda>c. if regexSpecial c then [backslash, c] else [c]) pattern)"

text \<open>
  \<^verbatim>\<open>s.replace(/lit/g, rep)\<close> for a literal, non-empty \<open>lit\<close>: every occurrence, found
  from the left, the search going on after the occurrence replaced.
\<close>

function replaceAll :: "string \<Rightarrow> string \<Rightarrow> string \<Rightarrow> string" where
  "replaceAll lit rep s =
     (if s = [] \<or> lit = [] then s
      else if startsWith s lit then rep @ replaceAll lit rep (drop (length lit) s)
      else hd s # replaceAll lit rep (tl s))"
  by pat_completeness auto
termination
  by (relation "measure (\<lambda>(lit, rep, s). length s)") auto

declare replaceAll.simps [simp del]

definition globToRegex :: "string \<Rightarrow> string" where
  "globToRegex pattern =
     replaceAll ''{{GLOBSTAR}}'' ''.*''
       (replaceAll ''?'' ''[^/]''
         (replaceAll ''*'' ''[^/]*''
           (replaceAll ''**'' ''{{GLOBSTAR}}''
             (escapeRegex pattern))))"

text \<open>
  The regular expressions. The sources \<^const>\<open>globToRegex\<close> builds are sequences of
  atoms, each starred or not: an escaped special character, the class \<^verbatim>\<open>[^/]\<close>, the dot,
  or a plain character. \<open>parseRegex\<close> reads this fragment of the syntax and gives \<open>None\<close>
  on anything else.
\<close>

datatype atom = Lit char | NotSlash | Dot

datatype ritem = One atom | Star atom

fun parseAtom :: "string \<Rightarrow> (atom \<times> string) option" where
  "parseAtom [] = None"
| "parseAtom (c # cs) =
     (if c = backslash then
        (case cs of
           [] \<Rightarrow> None
         | d # ds \<Rightarrow> if regexSpecial d then Some (Lit d, ds) else None)
      else if c = CHR ''['' then
        (if startsWith cs ''^/]'' then Some (NotSlash, drop 3 cs) else None)
      else if c = CHR ''.'' then Some (Dot, cs)
      else if c \<in> set ''*+?^$(){}|]'' then None
      else Some (Lit c, cs))"

function parseRegex :: "string \<Rightarrow> ritem list option" where
  "parseRegex s =
     (if s = [] then Some []
      else case parseAtom s of
        None \<Rightarrow> None
      | Some (a, rest) \<Rightarrow>
          (if startsWith rest ''*''
           then map_option (Cons (Star a)) (parseRegex (tl rest))
           else map_option (Cons (One a)) (parseRegex rest)))"
  by pat_completeness auto
termination
proof (relation "measure length")
  show "wf (measure length)" by simp
next
  fix s :: string and x2 x y
  assume "parseAtom s = Some x2" "(x, y) = x2"
  then have "length y < length s"
    by (cases s) (auto split: if_splits list.splits)
  then show "(tl y, s) \<in> measure length" by (cases y) auto
next
  fix s :: string and x2 x y
  assume "parseAtom s = Some x2" "(x, y) = x2"
  then have "length y < length s"
    by (cases s) (auto split: if_splits list.splits)
  then show "(y, s) \<in> measure length" by simp
qed

declare parseRegex.simps [simp del]

text \<open>What one atom accepts; the dot accepts every character but a line terminator.\<close>

fun atomAccepts :: "atom \<Rightarrow> char \<Rightarrow> bool" where
  "atomAccepts (Lit d) c = (c = d)"
| "atomAccepts NotSlash c = (c \<noteq> CHR ''/'')"
| "atomAccepts Dot c = (\<not> lineTerminator c)"

text \<open>
  \<^verbatim>\<open>new RegExp('^' + source + '$').test(path)\<close>: the whole path against the whole
  sequence. A starred atom first takes a character where it can (it is greedy) and gives
  it back when the rest fails.
\<close>

fun regexTest :: "ritem list \<Rightarrow> string \<Rightarrow> bool" where
  "regexTest [] s = (s = [])"
| "regexTest (One a # rs) [] = False"
| "regexTest (One a # rs) (c # cs) = (atomAccepts a c \<and> regexTest rs cs)"
| "regexTest (Star a # rs) [] = regexTest rs []"
| "regexTest (Star a # rs) (c # cs) =
     ((atomAccepts a c \<and> regexTest (Star a # rs) cs) \<or> regexTest rs (c # cs))"

definition matchesGlobPattern :: "string \<Rightarrow> string \<Rightarrow> bool" where
  "matchesGlobPattern filePath pattern =
     (case parseRegex (globToRegex pattern) of
        None \<Rightarrow> False
      | Some r \<Rightarrow> regexTest r filePath)"

text \<open>
  \<^verbatim>\<open>fileMatchesPatterns\<close>: an absent list is \<open>None\<close>; each loop returns at its first
  matching pattern.
\<close>

definition fileMatchesPatterns :: "string \<Rightarrow> string list option \<Rightarrow> string list option \<Rightarrow> bool" where
  "fileMatchesPatterns filePath includePatterns excludePatterns =
     (if (case excludePatterns of
            None \<Rightarrow> False
          | Some ex \<Rightarrow> ex \<noteq> [] \<and> list_ex (matchesGlobPattern filePath) ex)
      then False
      else (case includePatterns of
              None \<Rightarrow> True
            | Some inc \<Rightarrow>
                if inc \<noteq> [] then list_ex (matchesGlobPattern filePath) inc else True))"

section \<open>The per-file truncator\<close>

text \<open>
  \<^verbatim>\<open>truncateFileSection\<close>. The budget is an integer. For the integers a line budget
  can be (below \<open>2^40\<close> in size) the double-precision products floor to the exact values:
  \<^verbatim>\<open>Math.floor(maxLines * 0.6)\<close> is \<open>6 * maxLines div 10\<close> and
  \<^verbatim>\<open>Math.floor(maxLines * 0.4)\<close> is \<open>4 * maxLines div 10\<close>.
  The tail is \<^verbatim>\<open>contentLines.slice(-showAtEnd)\<close>.
\<close>

definition truncationMarker :: "int \<Rightarrow> string \<Rightarrow> nat \<Rightarrow> int \<Rightarrow> int \<Rightarrow> string list" where
  "truncationMarker truncatedCount fileName contentCount showAtStart showAtEnd =
     ['''',
      ''[*** FILE TRUNCATED: '' @ showInt truncatedCount @ '' lines hidden from '' @ fileName @ '' ***]'',
      ''[*** File had '' @ showNat contentCount @ '' total lines, showing first '' @ showInt showAtStart
        @ '' and last '' @ showInt showAtEnd @ '' ***]'',
      ''[*** Use maxLinesPerFile=0 to see complete diff ***]'',
      '''']"

definition truncateFileSection :: "string list \<Rightarrow> string \<Rightarrow> int \<Rightarrow> string list" where
  "truncateFileSection fileLines fileName maxLines =
     (if int (length fileLines) \<le> maxLines then fileLines
      else
        let contentLines = filter (\<lambda>line. \<not> startsWith line ''@@'') fileLines;
            hunkHeaders = filter (\<lambda>line. startsWith line ''@@'') fileLines
        in if int (length contentLines) \<le> maxLines then fileLines
           else
             let showAtStart = 6 * maxLines div 10;
                 showAtEnd = 4 * maxLines div 10;
                 truncatedCount = int (length contentLines) - showAtStart - showAtEnd
             in hunkHeaders
                @ slice contentLines 0 showAtStart
                @ truncationMarker truncatedCount fileName (length contentLines) showAtStart showAtEnd
                @ sliceFrom contentLines (- showAtEnd))"

text \<open>
  The loop of \<^verbatim>\<open>truncateDiff\<close> over the lines, its four variables passed along, and the
  last file processed when the lines are used up.
\<close>

definition headerFileName :: "string \<Rightarrow> string" where
  "headerFileName line = (case matchHeader line of Some g \<Rightarrow> g | None \<Rightarrow> ''unknown'')"

fun truncateLoop :: "int \<Rightarrow> string list \<Rightarrow> string list \<Rightarrow> string \<Rightarrow> bool \<Rightarrow> string list \<Rightarrow> string list" where
  "truncateLoop maxLinesPerFile res fileLines fileName inFileContent [] =
     (if fileLines \<noteq> [] then res @ truncateFileSection fileLines fileName maxLinesPerFile
      else res)"
| "truncateLoop maxLinesPerFile res fileLines fileName inFileContent (line # lines) =
     (if startsWith line ''diff --git '' then
        truncateLoop maxLinesPerFile
          ((if fileLines \<noteq> [] then res @ truncateFileSection fileLines fileName maxLinesPerFile
            else res) @ [line])
          [] (headerFileName line) False lines
      else if startsWith line ''index '' \<or> startsWith line ''+++'' \<or> startsWith line ''---'' then
        truncateLoop maxLinesPerFile (res @ [line]) fileLines fileName inFileContent lines
      else if startsWith line ''@@'' then
        truncateLoop maxLinesPerFile res (fileLines @ [line]) fileName True lines
      else if inFileContent then
        truncateLoop maxLinesPerFile res (fileLines @ [line]) fileName inFileContent lines
      else
        truncateLoop maxLinesPerFile (res @ [line]) fileLines fileName inFileContent lines)"

definition truncateDiff :: "string \<Rightarrow> int \<Rightarrow> string" where
  "truncateDiff diffContent maxLinesPerFile =
     (if maxLinesPerFile = 0 \<or> maxLinesPerFile \<le> 0 then diffContent
      else joinLines (truncateLoop maxLinesPerFile [] [] [] False (splitLines diffContent)))"

section \<open>The segmenter and filter\<close>

text \<open>
  The options of \<^verbatim>\<open>filterDiff\<close>; an option left out is \<open>None\<close>. A limit is used where
  it is truthy: present and not zero.
\<close>

record DiffFilterOptions =
  includePaths :: "string list option"
  excludePaths :: "string list option"
  maxFiles :: "int option"
  maxTotalLines :: "int option"

definition hasLength :: "string list option \<Rightarrow> bool" where
  "hasLength paths = (case paths of None \<Rightarrow> False | Some ps \<Rightarrow> ps \<noteq> [])"

definition truthy :: "int option \<Rightarrow> bool" where
  "truthy limit = (case limit of None \<Rightarrow> False | Some n \<Rightarrow> n \<noteq> 0)"

definition showLimit :: "int option \<Rightarrow> string" where
  "showLimit limit = (case limit of None \<Rightarrow> ''undefined'' | Some n \<Rightarrow> showInt n)"

text \<open>The counters returned as \<^verbatim>\<open>stats\<close>, and the other variables of the loop.\<close>

record DiffStats =
  includedFiles :: nat
  excludedFiles :: nat
  totalLines :: nat

record FilterState = DiffStats +
  result :: "string list"
  currentFileLines :: "string list"
  currentFileName :: string
  reachedMaxFiles :: bool
  reachedMaxLines :: bool

record FilterOutput =
  filtered :: string
  stats :: DiffStats

definition initialState :: FilterState where
  "initialState =
     \<lparr>includedFiles = 0, excludedFiles = 0, totalLines = 0,
      result = [], currentFileLines = [], currentFileName = [],
      reachedMaxFiles = False, reachedMaxLines = False\<rparr>"

text \<open>The closure \<^verbatim>\<open>flushCurrentFile\<close>, as a function of the state it updates.\<close>

definition flushCurrentFile :: "DiffFilterOptions \<Rightarrow> FilterState \<Rightarrow> FilterState" where
  "flushCurrentFile opts s =
     (if currentFileLines s = [] then s
      else
        let shouldInclude =
              fileMatchesPatterns (currentFileName s) (includePaths opts) (excludePaths opts)
        in if shouldInclude \<and> \<not> reachedMaxFiles s \<and> \<not> reachedMaxLines s then
             (if (case maxFiles opts of
                    None \<Rightarrow> False
                  | Some m \<Rightarrow> m \<noteq> 0 \<and> int (includedFiles s) \<ge> m)
              then s\<lparr>reachedMaxFiles := True, excludedFiles := excludedFiles s + 1,
                     currentFileLines := []\<rparr>
              else if (case maxTotalLines opts of
                         None \<Rightarrow> False
                       | Some m \<Rightarrow> m \<noteq> 0 \<and> int (totalLines s + length (currentFileLines s)) > m)
              then s\<lparr>reachedMaxLines := True, excludedFiles := excludedFiles s + 1,
                     currentFileLines := []\<rparr>
              else s\<lparr>result := result s @ currentFileLines s,
                     includedFiles := includedFiles s + 1,
                     totalLines := totalLines s + length (currentFileLines s),
                     currentFileLines := []\<rparr>)
           else s\<lparr>excludedFiles := excludedFiles s + 1, currentFileLines := []\<rparr>)"

text \<open>The body of the loop over the lines.\<close>

definition filterStep :: "DiffFilterOptions \<Rightarrow> FilterState \<Rightarrow> string \<Rightarrow> FilterState" where
  "filterStep opts s line =
     (if startsWith line ''diff --git '' then
        let s1 = flushCurrentFile opts s
        in s1\<lparr>currentFileName := (case matchHeader line of Some g \<Rightarrow> g | None \<Rightarrow> []),
               currentFileLines := currentFileLines s1 @ [line]\<rparr>
      else if currentFileName s \<noteq> [] then s\<lparr>currentFileLines := currentFileLines s @ [line]\<rparr>
      else s\<lparr>result := result s @ [line]\<rparr>)"

definition filterSummary :: "DiffFilterOptions \<Rightarrow> FilterState \<Rightarrow> string list" where
  "filterSummary opts s =
     (if excludedFiles s > 0 then
        ['''', ''[*** DIFF FILTERED: '' @ showNat (excludedFiles s) @ '' files excluded ***]'']
        @ (if reachedMaxFiles s
           then [''[*** Reached maxFiles limit of '' @ showLimit (maxFiles opts) @ '' ***]'']
           else [])
        @ (if reachedMaxLines s
           then [''[*** Reached maxTotalLines limit of '' @ showLimit (maxTotalLines opts) @ '' ***]'']
           else [])
        @ [''[*** Showing '' @ showNat (includedFiles s) @ '' files, ''
           @ showNat (totalLines s) @ '' lines ***]'']
      else [])"

definition filterDiff :: "string \<Rightarrow> DiffFilterOptions \<Rightarrow> FilterOutput" where
  "filterDiff diffContent filterOptions =
     (if \<not> hasLength (includePaths filterOptions) \<and> \<not> hasLength (excludePaths filterOptions)
         \<and> \<not> truthy (maxFiles filterOptions) \<and> \<not> truthy (maxTotalLines filterOptions)
      then \<lparr>filtered = diffContent,
            stats = \<lparr>includedFiles = 0, excludedFiles = 0,
                     totalLines = length (splitLines diffContent)\<rparr>\<rparr>
      else
        let s = flushCurrentFile filterOptions
                  (foldl (filterStep filterOptions) initialState (splitLines diffContent))
        in \<lparr>filtered = joinLines (result s @ filterSummary filterOptions s),
             stats = \<lparr>includedFiles = includedFiles s, excludedFiles = excludedFiles s,
                      totalLines = totalLines s\<rparr>\<rparr>)"

section \<open>Vocabulary of the properties\<close>

text \<open>The options record with no option set, \<^verbatim>\<open>{}\<close>.\<close>

definition noOptions :: DiffFilterOptions where
  "noOptions = \<lparr>includePaths = None, excludePaths = None, maxFiles = None, maxTotalLines = None\<rparr>"

text \<open>The patterns of a list that may be absent.\<close>

definition patternsOf :: "string list option \<Rightarrow> string list" where
  "patternsOf paths = (case paths of None \<Rightarrow> [] | Some ps \<Rightarrow> ps)"

text \<open>The content lines and the hunk headers of a file section; the metadata lines.\<close>

definition contentLinesOf :: "string list \<Rightarrow> string list" where
  "contentLinesOf fileLines = filter (\<lambda>line. \<not> startsWith line ''@@'') fileLines"

definition hunkHeadersOf :: "string list \<Rightarrow> string list" where
  "hunkHeadersOf fileLines = filter (\<lambda>line. startsWith line ''@@'') fileLines"

definition isMetadataLine :: "string \<Rightarrow> bool" where
  "isMetadataLine line =
     (startsWith line ''diff --git '' \<or> startsWith line ''index ''
      \<or> startsWith line ''+++'' \<or> startsWith line ''---'')"

text \<open>A file section of one hunk header and six content lines.\<close>

definition sampleSection :: "string list" where
  "sampleSection = [''@@ -1,6 +1,6 @@'', ''+a'', ''+b'', ''+c'', ''+d'', ''+e'', ''+f'']"

text \<open>
  A file segment as a pair of its header line and the lines after it, up to the next
  header. It is well formed when the header starts with \<^verbatim>\<open>diff --git \<close> and parses, and
  no other line of it starts a segment. \<open>loadSegment\<close> is what the loop does on the lines of
  a well-formed segment.
\<close>

definition isFileHeader :: "string \<Rightarrow> bool" where
  "isFileHeader line = startsWith line ''diff --git ''"

definition segmentLines :: "string \<times> string list \<Rightarrow> string list" where
  "segmentLines seg = fst seg # snd seg"

definition segmentName :: "string \<times> string list \<Rightarrow> string" where
  "segmentName seg = (case matchHeader (fst seg) of Some g \<Rightarrow> g | None \<Rightarrow> [])"

definition wellFormedSegment :: "string \<times> string list \<Rightarrow> bool" where
  "wellFormedSegment seg =
     (isFileHeader (fst seg) \<and> matchHeader (fst seg) \<noteq> None
      \<and> list_all (\<lambda>l. \<not> isFileHeader l) (snd seg))"

definition segmentPasses :: "DiffFilterOptions \<Rightarrow> string \<times> string list \<Rightarrow> bool" where
  "segmentPasses opts seg =
     fileMatchesPatterns (segmentName seg) (includePaths opts) (excludePaths opts)"

definition loadSegment :: "DiffFilterOptions \<Rightarrow> FilterState \<Rightarrow> string \<times> string list \<Rightarrow> FilterState" where
  "loadSegment opts s seg =
     (flushCurrentFile opts s)\<lparr>currentFileName := segmentName seg,
                                currentFileLines := segmentLines seg\<rparr>"

text \<open>Sample diffs and options.\<close>

definition fiveFiles :: string where
  "fiveFiles = joinLines
     [''diff --git a/f1 b/f1'', ''+a'', ''diff --git a/f2 b/f2'', ''+b'',
      ''diff --git a/f3 b/f3'', ''+c'', ''diff --git a/f4 b/f4'', ''+d'',
      ''diff --git a/f5 b/f5'', ''+e'']"

definition onlyMaxFiles :: "int \<Rightarrow> DiffFilterOptions" where
  "onlyMaxFiles n = \<lparr>includePaths = None, excludePaths = None, maxFiles = Some n, maxTotalLines = None\<rparr>"

definition onlyMaxTotalLines :: "int \<Rightarrow> DiffFilterOptions" where
  "onlyMaxTotalLines n = \<lparr>includePaths = None, excludePaths = None, maxFiles = None, maxTotalLines = Some n\<rparr>"






definition fiveFilesThreeUnparsed :: string where
  "fiveFilesThreeUnparsed = joinLines
     [''diff --git a/f1 b/f1'', ''+a'', ''diff --git a/f2 b/f2'', ''+b'',
      ''diff --git f3 f3'', ''+SECRET3'', ''diff --git f4 f4'', ''+SECRET4'',
      ''diff --git f5 f5'', ''+SECRET5'']"


definition unparsedHeaderDiff :: string where
  "unparsedHeaderDiff = joinLines [''diff --git x y'', ''@@ -1 +1 @@'', ''-old'', ''+new'']"

definition excludeEverything :: DiffFilterOptions where
  "excludeEverything =
     \<lparr>includePaths = None, excludePaths = Some [''**''], maxFiles = None, maxTotalLines = None\<rparr>"

definition oneFile :: string where
  "oneFile = joinLines [''diff --git a/f1 b/f1'', ''@@ -1 +1 @@'', ''-old'', ''+new'']"

text \<open>
  The pattern language in the words of the specification. A pattern is read from the left
  into tokens: \<^verbatim>\<open>**\<close>, \<^verbatim>\<open>*\<close>, \<^verbatim>\<open>?\<close>, and every other character as itself. A path matches
  a sequence of tokens when it splits into one piece per token, in order: a literal
  character matches itself, \<^verbatim>\<open>?\<close> one character other than \<^verbatim>\<open>/\<close>, \<^verbatim>\<open>*\<close> any run of
  characters without \<^verbatim>\<open>/\<close>, and \<^verbatim>\<open>**\<close> any run of the characters \<open>inRun\<close> allows: every
  character in the specification as it is stated (\<open>globMatchesAsStated\<close>), every character
  but a line terminator in \<open>globMatches\<close>.
\<close>

datatype globToken = Literal char | AnyOne | AnyRun | GlobStar

fun globTokens :: "string \<Rightarrow> globToken list" where
  "globTokens [] = []"
| "globTokens (c # cs) =
     (if c = CHR ''*'' then
        (case cs of
           [] \<Rightarrow> [AnyRun]
         | d # ds \<Rightarrow> if d = CHR ''*'' then GlobStar # globTokens ds else AnyRun # globTokens cs)
      else if c = CHR ''?'' then AnyOne # globTokens cs
      else Literal c # globTokens cs)"

fun tokenMatches :: "(char \<Rightarrow> bool) \<Rightarrow> globToken \<Rightarrow> string \<Rightarrow> bool" where
  "tokenMatches inRun (Literal c) w = (w = [c])"
| "tokenMatches inRun AnyOne w = (length w = 1 \<and> CHR ''/'' \<notin> set w)"
| "tokenMatches inRun AnyRun w = (CHR ''/'' \<notin> set w)"
| "tokenMatches inRun GlobStar w = list_all inRun w"

fun globMatchesWith :: "(char \<Rightarrow> bool) \<Rightarrow> globToken list \<Rightarrow> string \<Rightarrow> bool" where
  "globMatchesWith inRun [] path = (path = [])"
| "globMatchesWith inRun (t # ts) path =
     (\<exists>n\<le>length path. tokenMatches inRun t (take n path)
        \<and> globMatchesWith inRun ts (drop n path))"

definition globMatchesAsStated :: "string \<Rightarrow> string \<Rightarrow> bool" where
  "globMatchesAsStated path pattern = globMatchesWith (\<lambda>c. True) (globTokens pattern) path"

definition globMatches :: "string \<Rightarrow> string \<Rightarrow> bool" where
  "globMatches path pattern =
     globMatchesWith (\<lambda>c. \<not> lineTerminator c) (globTokens pattern) path"

text \<open>
  The text of a token after each of the five passes of \<^const>\<open>globToRegex\<close>, and the item
  of the regular expression that the last text is read as.
\<close>

fun render1 :: "globToken \<Rightarrow> string" where
  "render1 (Literal c) = (if regexSpecial c then [backslash, c] else [c])"
| "render1 AnyOne = ''?''"
| "render1 AnyRun = ''*''"
| "render1 GlobStar = ''**''"

fun render2 :: "globToken \<Rightarrow> string" where
  "render2 GlobStar = ''{{GLOBSTAR}}''"
| "render2 t = render1 t"

fun render3 :: "globToken \<Rightarrow> string" where
  "render3 AnyRun = ''[^/]*''"
| "render3 t = render2 t"

fun render4 :: "globToken \<Rightarrow> string" where
  "render4 AnyOne = ''[^/]''"
| "render4 t = render3 t"

fun render5 :: "globToken \<Rightarrow> string" where
  "render5 GlobStar = ''.*''"
| "render5 t = render4 t"

fun tokenItem :: "globToken \<Rightarrow> ritem" where
  "tokenItem (Literal c) = One (Lit c)"
| "tokenItem AnyOne = One NotSlash"
| "tokenItem AnyRun = Star NotSlash"
| "tokenItem GlobStar = Star Dot"

text \<open>
  The token sequences of patterns: a literal is neither \<^verbatim>\<open>*\<close> nor \<^verbatim>\<open>?\<close>, and \<^verbatim>\<open>*\<close> is not
  followed by \<^verbatim>\<open>*\<close> or \<^verbatim>\<open>**\<close>.
\<close>

fun plainToken :: "globToken \<Rightarrow> bool" where
  "plainToken (Literal c) = (c \<noteq> CHR ''*'' \<and> c \<noteq> CHR ''?'')"
| "plainToken t = True"

fun startsRun :: "globToken list \<Rightarrow> bool" where
  "startsRun (AnyRun # ts) = True"
| "startsRun (GlobStar # ts) = True"
| "startsRun ts = False"

fun validTokens :: "globToken list \<Rightarrow> bool" where
  "validTokens [] = True"
| "validTokens (t # ts) =
     (plainToken t \<and> \<not> (t = AnyRun \<and> startsRun ts) \<and> validTokens ts)"

text \<open>
  No cutoff fires on the segments: a file limit that is set is at least their number, a
  line limit that is set is at least the number of their lines. \<open>anyOptionSet\<close>: the filter
  does not take its fast path. \<open>loadedState\<close>: the state of the loop when every segment
  before the last has been kept and the last one waits in \<open>currentFileLines\<close>.
\<close>

definition withinLimits :: "DiffFilterOptions \<Rightarrow> (string \<times> string list) list \<Rightarrow> bool" where
  "withinLimits opts segs =
     ((case maxFiles opts of None \<Rightarrow> True | Some m \<Rightarrow> m = 0 \<or> int (length segs) \<le> m)
      \<and> (case maxTotalLines opts of
            None \<Rightarrow> True
          | Some m \<Rightarrow> m = 0 \<or> int (length (concat (map segmentLines segs))) \<le> m))"

definition anyOptionSet :: "DiffFilterOptions \<Rightarrow> bool" where
  "anyOptionSet opts =
     (hasLength (includePaths opts) \<or> hasLength (excludePaths opts)
      \<or> truthy (maxFiles opts) \<or> truthy (maxTotalLines opts))"

definition loadedState :: "string list \<Rightarrow> (string \<times> string list) list \<Rightarrow> FilterState" where
  "loadedState pre segs =
     \<lparr>includedFiles = length (butlast segs), excludedFiles = 0,
      totalLines = length (concat (map segmentLines (butlast segs))),
      result = pre @ concat (map segmentLines (butlast segs)),
      currentFileLines = (if segs = [] then [] else segmentLines (last segs)),
      currentFileName = (if segs = [] then [] else segmentName (last segs)),
      reachedMaxFiles = False, reachedMaxLines = False\<rparr>"

section \<open>Lines and text\<close>

lemma splitLines_nonempty: "splitLines s \<noteq> []"
  by (induction s) (simp_all add: Let_def)

lemma joinLines_Cons: "ls \<noteq> [] \<Longrightarrow> joinLines (l # ls) = l @ newline # joinLines ls"
  by (cases ls) simp_all

lemma joinLines_splitLines: "joinLines (splitLines s) = s"
proof (induction s)
  case Nil
  show ?case by simp
next
  case (Cons c cs)
  obtain l ls where sp: "splitLines cs = l # ls"
    using splitLines_nonempty [of cs] by (cases "splitLines cs") auto
  show ?case
  proof (cases "c = newline")
    case True
    then show ?thesis using Cons sp by (simp add: Let_def)
  next
    case False
    then show ?thesis using Cons sp by (cases ls) (simp_all add: Let_def)
  qed
qed

lemma splitLines_no_newline: "l \<in> set (splitLines s) \<Longrightarrow> newline \<notin> set l"
proof (induction s arbitrary: l)
  case Nil
  then show ?case by simp
next
  case (Cons c cs)
  obtain k ks where sp: "splitLines cs = k # ks"
    using splitLines_nonempty [of cs] by (cases "splitLines cs") auto
  have k: "newline \<notin> set k" and ks: "\<And>x. x \<in> set ks \<Longrightarrow> newline \<notin> set x"
    using Cons.IH sp by auto
  show ?case using Cons.prems sp k ks by (auto simp: Let_def split: if_splits)
qed

lemma splitLines_line: "newline \<notin> set l \<Longrightarrow> splitLines l = [l]"
  by (induction l) (auto simp: Let_def)

lemma splitLines_append_newline:
  "newline \<notin> set l \<Longrightarrow> splitLines (l @ newline # rest) = l # splitLines rest"
  by (induction l) (auto simp: Let_def)

lemma splitLines_joinLines:
  "ls \<noteq> [] \<Longrightarrow> list_all (\<lambda>l. newline \<notin> set l) ls \<Longrightarrow> splitLines (joinLines ls) = ls"
proof (induction ls rule: joinLines.induct)
  case 1
  then show ?case by simp
next
  case (2 l)
  then show ?case by (simp add: splitLines_line)
next
  case (3 l k ls)
  then show ?case by (simp add: splitLines_append_newline)
qed

lemma length_splitLines: "length (splitLines s) = Suc (count_list s newline)"
  by (induction s) (simp_all add: Let_def splitLines_nonempty)

section \<open>The paths that skip a stage\<close>

text \<open>
  C6. For every diff text \<open>d\<close>, the filter stage called with no option set returns \<open>d\<close>
  itself, with \<open>includedFiles = 0\<close>, \<open>excludedFiles = 0\<close> and \<open>totalLines\<close> the number of
  lines of \<open>d\<close> (one more than its line feeds); and the truncator called with budget \<open>0\<close>
  returns \<open>d\<close> itself.
\<close>

theorem noop_paths_identity:
  "filterDiff d noOptions
     = \<lparr>filtered = d,
        stats = \<lparr>includedFiles = 0, excludedFiles = 0, totalLines = length (splitLines d)\<rparr>\<rparr>
   \<and> length (splitLines d) = Suc (count_list d newline)
   \<and> truncateDiff d 0 = d"
  by (simp add: filterDiff_def noOptions_def hasLength_def truthy_def truncateDiff_def
      length_splitLines)

section \<open>The keep or drop predicate\<close>

text \<open>
  C7. Exclude takes precedence over include: when an exclude pattern matches the path the
  file is rejected, whatever the include patterns; when no exclude pattern matches and
  there are include patterns, the file is kept exactly when one of them matches; with no
  pattern at all every path is kept. The path \<^verbatim>\<open>src/a.ts\<close> matches the include pattern
  \<^verbatim>\<open>src/**\<close> and the exclude pattern \<^verbatim>\<open>**/*.ts\<close>, and is excluded.
\<close>

theorem exclude_precedence:
  "((\<exists>pat \<in> set (patternsOf ex). matchesGlobPattern path pat) \<longrightarrow>
      \<not> fileMatchesPatterns path inc ex)
   \<and> (\<not> (\<exists>pat \<in> set (patternsOf ex). matchesGlobPattern path pat) \<and> patternsOf inc \<noteq> [] \<longrightarrow>
        fileMatchesPatterns path inc ex
          = (\<exists>pat \<in> set (patternsOf inc). matchesGlobPattern path pat))
   \<and> (patternsOf inc = [] \<and> patternsOf ex = [] \<longrightarrow> fileMatchesPatterns path inc ex)
   \<and> matchesGlobPattern ''src/a.ts'' ''src/**''
   \<and> matchesGlobPattern ''src/a.ts'' ''**/*.ts''
   \<and> \<not> fileMatchesPatterns ''src/a.ts'' (Some [''src/**'']) (Some [''**/*.ts''])"
proof -
  have a: "matchesGlobPattern ''src/a.ts'' ''src/**''" by code_simp
  have b: "matchesGlobPattern ''src/a.ts'' ''**/*.ts''" by code_simp
  have c: "\<not> fileMatchesPatterns ''src/a.ts'' (Some [''src/**'']) (Some [''**/*.ts''])"
    using b by (simp add: fileMatchesPatterns_def)
  have g: "((\<exists>pat \<in> set (patternsOf ex). matchesGlobPattern path pat) \<longrightarrow>
      \<not> fileMatchesPatterns path inc ex)
   \<and> (\<not> (\<exists>pat \<in> set (patternsOf ex). matchesGlobPattern path pat) \<and> patternsOf inc \<noteq> [] \<longrightarrow>
        fileMatchesPatterns path inc ex
          = (\<exists>pat \<in> set (patternsOf inc). matchesGlobPattern path pat))
   \<and> (patternsOf inc = [] \<and> patternsOf ex = [] \<longrightarrow> fileMatchesPatterns path inc ex)"
    by (cases ex; cases inc) (auto simp: fileMatchesPatterns_def patternsOf_def list_ex_iff)
  show ?thesis using a b c g by blast
qed

theorem exclude_precedence_witness:
  "\<not> fileMatchesPatterns ''docs/a.md'' (Some [''docs/*'']) (Some [''*.ts'', ''**/*.md''])
   \<and> fileMatchesPatterns ''docs/a.md'' (Some [''src/**'', ''docs/*'']) (Some [''*.ts''])
   \<and> \<not> fileMatchesPatterns ''docs/a.md'' (Some [''src/**'']) None
   \<and> fileMatchesPatterns ''docs/a.md'' None (Some [])"
proof -
  have m1: "matchesGlobPattern ''docs/a.md'' ''**/*.md''" by code_simp
  have m2: "matchesGlobPattern ''docs/a.md'' ''docs/*''" by code_simp
  have m3: "\<not> matchesGlobPattern ''docs/a.md'' ''*.ts''" by code_simp
  have m4: "\<not> matchesGlobPattern ''docs/a.md'' ''src/**''" by code_simp
  show ?thesis
    using m1 m2 m3 m4
      exclude_precedence [of "Some [''*.ts'', ''**/*.md'']" "''docs/a.md''" "Some [''docs/*'']"]
      exclude_precedence [of "Some [''*.ts'']" "''docs/a.md''" "Some [''src/**'', ''docs/*'']"]
      exclude_precedence [of "None" "''docs/a.md''" "Some [''src/**'']"]
      exclude_precedence [of "Some []" "''docs/a.md''" "None"]
    by (simp add: patternsOf_def)
qed

section \<open>The per-file truncator: windows and metadata\<close>

lemma length_truncationMarker: "length (truncationMarker tc nm n a b) = 5"
  by (simp add: truncationMarker_def)

lemma slice_head: "0 \<le> a \<Longrightarrow> a \<le> int (length xs) \<Longrightarrow> slice xs 0 a = take (nat a) xs"
  by (simp add: slice_def Let_def)

lemma sliceFrom_tail:
  "0 < b \<Longrightarrow> b \<le> int (length xs) \<Longrightarrow> sliceFrom xs (- b) = drop (length xs - nat b) xs"
  by (simp add: sliceFrom_def slice_def Let_def nat_diff_distrib')

lemma sliceFrom_zero: "sliceFrom xs 0 = xs"
  by (simp add: sliceFrom_def slice_def Let_def)

lemma truncateFileSection_within:
  "int (length (contentLinesOf fl)) \<le> m \<Longrightarrow> truncateFileSection fl nm m = fl"
  by (simp add: truncateFileSection_def contentLinesOf_def Let_def)

lemma length_content_le: "length (contentLinesOf fl) \<le> length fl"
  by (simp add: contentLinesOf_def)

lemma truncateFileSection_beyond:
  assumes "m < int (length (contentLinesOf fl))" and "3 \<le> m"
  shows "truncateFileSection fl nm m
           = hunkHeadersOf fl
             @ take (nat (6 * m div 10)) (contentLinesOf fl)
             @ truncationMarker (int (length (contentLinesOf fl)) - 6 * m div 10 - 4 * m div 10) nm
                 (length (contentLinesOf fl)) (6 * m div 10) (4 * m div 10)
             @ drop (length (contentLinesOf fl) - nat (4 * m div 10)) (contentLinesOf fl)"
proof -
  have a: "0 \<le> 6 * m div 10" "6 * m div 10 \<le> int (length (contentLinesOf fl))"
    using assms by linarith+
  have b: "0 < 4 * m div 10" "4 * m div 10 \<le> int (length (contentLinesOf fl))"
    using assms by linarith+
  have big: "\<not> int (length fl) \<le> m"
    using assms(1) length_content_le [of fl] by linarith
  show ?thesis
    using big assms(1) slice_head [OF a] sliceFrom_tail [OF b]
    by (simp add: truncateFileSection_def Let_def contentLinesOf_def hunkHeadersOf_def)
qed

text \<open>
  C1, as the code has it. A file section whose content lines (the lines not starting with
  \<^verbatim>\<open>@@\<close>) are at most \<open>m\<close> is returned unchanged, however many hunk headers it has.
  Otherwise, for a budget \<open>m \<ge> 3\<close>, the output is, in order: all hunk headers, the first
  \<open>floor (0.6 m)\<close> content lines, the marker block, the last \<open>floor (0.4 m)\<close> content lines;
  the marker block is a blank line, three bracketed lines and a blank line, so the output
  has (hunk headers) + \<open>floor (0.6 m)\<close> + \<open>floor (0.4 m)\<close> + 5 lines.
\<close>

theorem truncateFileSection_windows:
  "(int (length (contentLinesOf fl)) \<le> m \<longrightarrow> truncateFileSection fl nm m = fl)
   \<and> (m < int (length (contentLinesOf fl)) \<and> 3 \<le> m \<longrightarrow>
        truncateFileSection fl nm m
          = hunkHeadersOf fl
            @ take (nat (6 * m div 10)) (contentLinesOf fl)
            @ truncationMarker (int (length (contentLinesOf fl)) - 6 * m div 10 - 4 * m div 10) nm
                (length (contentLinesOf fl)) (6 * m div 10) (4 * m div 10)
            @ drop (length (contentLinesOf fl) - nat (4 * m div 10)) (contentLinesOf fl)
        \<and> length (truncateFileSection fl nm m)
            = length (hunkHeadersOf fl) + nat (6 * m div 10) + nat (4 * m div 10) + 5)
   \<and> truncationMarker tc nm n a b =
        ['''',
         ''[*** FILE TRUNCATED: '' @ showInt tc @ '' lines hidden from '' @ nm @ '' ***]'',
         ''[*** File had '' @ showNat n @ '' total lines, showing first '' @ showInt a
           @ '' and last '' @ showInt b @ '' ***]'',
         ''[*** Use maxLinesPerFile=0 to see complete diff ***]'',
         '''']"
proof (intro conjI impI)
  assume "int (length (contentLinesOf fl)) \<le> m"
  then show "truncateFileSection fl nm m = fl"
    by (rule truncateFileSection_within)
next
  assume h: "m < int (length (contentLinesOf fl)) \<and> 3 \<le> m"
  then show "truncateFileSection fl nm m
          = hunkHeadersOf fl
            @ take (nat (6 * m div 10)) (contentLinesOf fl)
            @ truncationMarker (int (length (contentLinesOf fl)) - 6 * m div 10 - 4 * m div 10) nm
                (length (contentLinesOf fl)) (6 * m div 10) (4 * m div 10)
            @ drop (length (contentLinesOf fl) - nat (4 * m div 10)) (contentLinesOf fl)"
    using truncateFileSection_beyond [of m fl nm] by blast
next
  assume h: "m < int (length (contentLinesOf fl)) \<and> 3 \<le> m"
  then have "nat (6 * m div 10) \<le> length (contentLinesOf fl)"
    and "nat (4 * m div 10) \<le> length (contentLinesOf fl)"
    by linarith+
  moreover have "truncateFileSection fl nm m
          = hunkHeadersOf fl
            @ take (nat (6 * m div 10)) (contentLinesOf fl)
            @ truncationMarker (int (length (contentLinesOf fl)) - 6 * m div 10 - 4 * m div 10) nm
                (length (contentLinesOf fl)) (6 * m div 10) (4 * m div 10)
            @ drop (length (contentLinesOf fl) - nat (4 * m div 10)) (contentLinesOf fl)"
    using h truncateFileSection_beyond [of m fl nm] by blast
  ultimately show "length (truncateFileSection fl nm m)
            = length (hunkHeadersOf fl) + nat (6 * m div 10) + nat (4 * m div 10) + 5"
    by (simp add: length_truncationMarker)
next
  show "truncationMarker tc nm n a b =
        ['''',
         ''[*** FILE TRUNCATED: '' @ showInt tc @ '' lines hidden from '' @ nm @ '' ***]'',
         ''[*** File had '' @ showNat n @ '' total lines, showing first '' @ showInt a
           @ '' and last '' @ showInt b @ '' ***]'',
         ''[*** Use maxLinesPerFile=0 to see complete diff ***]'',
         '''']"
    by (simp only: truncationMarker_def)
qed

theorem truncateFileSection_windows_witness:
  "int (length (contentLinesOf sampleSection)) \<le> 6
   \<and> truncateFileSection sampleSection ''f.txt'' 6 = sampleSection
   \<and> 5 < int (length (contentLinesOf sampleSection)) \<and> (3::int) \<le> 5
   \<and> length (truncateFileSection sampleSection ''f.txt'' 5) = 11"
proof -
  have c: "length (contentLinesOf sampleSection) = 6"
    by (simp add: contentLinesOf_def sampleSection_def)
  have h: "length (hunkHeadersOf sampleSection) = 1"
    by (simp add: hunkHeadersOf_def sampleSection_def)
  show ?thesis
    using truncateFileSection_windows [of sampleSection 6 "''f.txt''"]
      truncateFileSection_windows [of sampleSection 5 "''f.txt''"]
    by (simp add: c h)
qed

text \<open>
  The count of C1 as it is stated, with six marker and blank lines, fails on a section of
  one hunk header and six content lines with budget 5: the output has 11 lines, not 12.
\<close>

theorem truncateFileSection_six_lines_counterexample:
  "(0::int) < 5
   \<and> (5::int) < int (length (contentLinesOf sampleSection))
   \<and> length (truncateFileSection sampleSection ''f.txt'' 5)
       \<noteq> length (hunkHeadersOf sampleSection) + nat (6 * 5 div 10) + nat (4 * 5 div 10) + 6"
  by (simp add: sampleSection_def contentLinesOf_def hunkHeadersOf_def truncateFileSection_def
      Let_def slice_def sliceFrom_def truncationMarker_def)

text \<open>
  With budget 1 or 2, \<open>floor (0.4 m)\<close> is 0 and \<^verbatim>\<open>contentLines.slice(-0)\<close> is the whole
  list: the tail printed after the marker is every content line, while the marker says
  \<^verbatim>\<open>last 0\<close>.
\<close>

lemma truncateFileSection_small_budget:
  "truncateFileSection sampleSection ''f.txt'' 2
     = [''@@ -1,6 +1,6 @@'', ''+a'', '''',
        ''[*** FILE TRUNCATED: 5 lines hidden from f.txt ***]'',
        ''[*** File had 6 total lines, showing first 1 and last 0 ***]'',
        ''[*** Use maxLinesPerFile=0 to see complete diff ***]'',
        '''', ''+a'', ''+b'', ''+c'', ''+d'', ''+e'', ''+f'']"
  by code_simp


lemma digitChar_no_newline: "d < 10 \<Longrightarrow> digitChar d \<noteq> newline"
proof -
  assume "d < 10"
  then have "digitChar d \<in> set ''0123456789''"
    unfolding digitChar_def by (intro nth_mem) simp
  then show ?thesis by (auto simp: newline_def)
qed

lemma showNat_no_newline: "newline \<notin> set (showNat n)"
proof (induction n rule: showNat.induct)
  case (1 n)
  show ?case
  proof (cases "n < 10")
    case True
    then show ?thesis using digitChar_no_newline [of n] by (subst showNat.simps) auto
  next
    case False
    then show ?thesis
      using 1 digitChar_no_newline [of "n mod 10"] by (subst showNat.simps) auto
  qed
qed

lemma showInt_no_newline: "newline \<notin> set (showInt i)"
proof -
  have "CHR ''-'' \<noteq> newline" by (simp add: newline_def)
  then show ?thesis by (simp add: showInt_def showNat_no_newline)
qed

lemma dotRun_no_terminator: "c \<in> set (dotRun s) \<Longrightarrow> \<not> lineTerminator c"
  unfolding dotRun_def by (auto dest: set_takeWhileD)

lemma tryGroup1_Some:
  "tryGroup1 n rest = Some g \<Longrightarrow> g \<noteq> [] \<and> (\<exists>t. g = dotRun t)"
  by (induction n) (auto split: if_splits)

lemma matchHeader_Some: "matchHeader l = Some g \<Longrightarrow> g \<noteq> [] \<and> (\<exists>t. g = dotRun t)"
proof (induction l)
  case Nil
  then show ?case by simp
next
  case (Cons c cs)
  then show ?case
    by (auto simp: matchHere_def split: option.splits if_splits dest: tryGroup1_Some)
qed

lemma matchHeader_no_terminator:
  "matchHeader l = Some g \<Longrightarrow> c \<in> set g \<Longrightarrow> \<not> lineTerminator c"
  using matchHeader_Some [of l g] dotRun_no_terminator by blast

lemma matchHeader_no_newline: "matchHeader l = Some g \<Longrightarrow> newline \<notin> set g"
  using matchHeader_no_terminator [of l g newline] by (auto simp: lineTerminator_def)

lemma headerFileName_no_newline: "newline \<notin> set (headerFileName l)"
  by (auto simp: headerFileName_def newline_def split: option.splits
      dest: matchHeader_no_newline [unfolded newline_def])

lemma truncationMarker_no_newline:
  "newline \<notin> set nm \<Longrightarrow> l \<in> set (truncationMarker tc nm n a b) \<Longrightarrow> newline \<notin> set l"
  using showInt_no_newline [of tc] showInt_no_newline [of a] showInt_no_newline [of b]
    showNat_no_newline [of n]
  by (auto simp: truncationMarker_def newline_def)

lemma set_slice: "set (slice xs a b) \<subseteq> set xs"
  by (auto simp: slice_def Let_def dest: in_set_takeD in_set_dropD)

lemma set_sliceFrom: "set (sliceFrom xs a) \<subseteq> set xs"
  using set_slice by (simp add: sliceFrom_def)

lemma truncateFileSection_lines:
  "l \<in> set (truncateFileSection fl nm m) \<Longrightarrow>
     l \<in> set fl \<or> (\<exists>tc n a b. l \<in> set (truncationMarker tc nm n a b))"
proof -
  assume l: "l \<in> set (truncateFileSection fl nm m)"
  have c: "set (contentLinesOf fl) \<subseteq> set fl" and h: "set (hunkHeadersOf fl) \<subseteq> set fl"
    by (auto simp: contentLinesOf_def hunkHeadersOf_def)
  show ?thesis
  proof (cases "truncateFileSection fl nm m = fl")
    case True
    then show ?thesis using l by simp
  next
    case False
    then have "truncateFileSection fl nm m
      = hunkHeadersOf fl @ slice (contentLinesOf fl) 0 (6 * m div 10)
        @ truncationMarker (int (length (contentLinesOf fl)) - 6 * m div 10 - 4 * m div 10) nm
            (length (contentLinesOf fl)) (6 * m div 10) (4 * m div 10)
        @ sliceFrom (contentLinesOf fl) (- (4 * m div 10))"
      by (simp add: truncateFileSection_def Let_def contentLinesOf_def hunkHeadersOf_def
          split: if_splits)
    then have "l \<in> set (hunkHeadersOf fl) \<or> l \<in> set (slice (contentLinesOf fl) 0 (6 * m div 10))
      \<or> l \<in> set (truncationMarker (int (length (contentLinesOf fl)) - 6 * m div 10 - 4 * m div 10) nm
            (length (contentLinesOf fl)) (6 * m div 10) (4 * m div 10))
      \<or> l \<in> set (sliceFrom (contentLinesOf fl) (- (4 * m div 10)))"
      using l by (simp only: set_append Un_iff)
    then show ?thesis
      using c h set_slice [of "contentLinesOf fl" 0 "6 * m div 10"]
        set_sliceFrom [of "contentLinesOf fl" "- (4 * m div 10)"]
      by blast
  qed
qed

lemma truncationMarker_not_metadata:
  "l \<in> set (truncationMarker tc nm n a b) \<Longrightarrow> \<not> isMetadataLine l"
  by (auto simp: truncationMarker_def isMetadataLine_def)

lemma truncateFileSection_no_metadata:
  assumes "list_all (\<lambda>l. \<not> isMetadataLine l) fl"
  shows "filter isMetadataLine (truncateFileSection fl nm m) = []"
proof -
  have "\<not> isMetadataLine l" if "l \<in> set (truncateFileSection fl nm m)" for l
    using truncateFileSection_lines [OF that] assms truncationMarker_not_metadata
    unfolding list_all_iff by blast
  then show ?thesis by (simp add: filter_empty_conv)
qed

lemma truncateFileSection_no_newline:
  assumes "list_all (\<lambda>l. newline \<notin> set l) fl" and "newline \<notin> set nm"
  shows "list_all (\<lambda>l. newline \<notin> set l) (truncateFileSection fl nm m)"
proof -
  have "newline \<notin> set l" if "l \<in> set (truncateFileSection fl nm m)" for l
    using truncateFileSection_lines [OF that] assms truncationMarker_no_newline [of nm]
    unfolding list_all_iff by blast
  then show ?thesis by (simp add: list_all_iff)
qed

lemma truncateLoop_metadata:
  "list_all (\<lambda>l. \<not> isMetadataLine l) fl \<Longrightarrow>
   filter isMetadataLine (truncateLoop m res fl nm inFile lines)
     = filter isMetadataLine res @ filter isMetadataLine lines"
proof (induction lines arbitrary: res fl nm inFile)
  case Nil
  then show ?case by (simp add: truncateFileSection_no_metadata)
next
  case (Cons line lines)
  note none = truncateFileSection_no_metadata [OF Cons.prems, of nm m]
  show ?case
  proof (cases "isMetadataLine line")
    case True
    show ?thesis
    proof (cases "startsWith line ''diff --git ''")
      case hd: True
      have "truncateLoop m res fl nm inFile (line # lines)
        = truncateLoop m ((if fl \<noteq> [] then res @ truncateFileSection fl nm m else res) @ [line])
            [] (headerFileName line) False lines"
        using hd by simp
      then show ?thesis
        using Cons.IH [of "[]"] True none by simp
    next
      case False
      then have "startsWith line ''index '' \<or> startsWith line ''+++'' \<or> startsWith line ''---''"
        using True by (simp add: isMetadataLine_def)
      then have "truncateLoop m res fl nm inFile (line # lines)
        = truncateLoop m (res @ [line]) fl nm inFile lines"
        using False by simp
      then show ?thesis
        using Cons.IH [OF Cons.prems] True by simp
    qed
  next
    case False
    then have nm: "\<not> startsWith line ''diff --git ''" "\<not> startsWith line ''index ''"
      "\<not> startsWith line ''+++''" "\<not> startsWith line ''---''"
      by (auto simp: isMetadataLine_def)
    have ext: "list_all (\<lambda>l. \<not> isMetadataLine l) (fl @ [line])"
      using Cons.prems False by simp
    have "truncateLoop m res fl nm inFile (line # lines)
        = truncateLoop m res (fl @ [line]) nm True lines
      \<or> truncateLoop m res fl nm inFile (line # lines)
        = truncateLoop m res (fl @ [line]) nm inFile lines
      \<or> truncateLoop m res fl nm inFile (line # lines)
        = truncateLoop m (res @ [line]) fl nm inFile lines"
      using nm by simp
    then show ?thesis
      using False Cons.IH [OF ext] Cons.IH [OF Cons.prems] by auto
  qed
qed

lemma truncateLoop_no_newline:
  "list_all (\<lambda>l. newline \<notin> set l) fl \<Longrightarrow> list_all (\<lambda>l. newline \<notin> set l) res \<Longrightarrow>
   list_all (\<lambda>l. newline \<notin> set l) lines \<Longrightarrow> newline \<notin> set nm \<Longrightarrow>
   list_all (\<lambda>l. newline \<notin> set l) (truncateLoop m res fl nm inFile lines)"
proof (induction lines arbitrary: res fl nm inFile)
  case Nil
  then show ?case by (simp add: truncateFileSection_no_newline)
next
  case (Cons line lines)
  have t: "list_all (\<lambda>l. newline \<notin> set l) (truncateFileSection fl nm m)"
    using Cons.prems by (simp add: truncateFileSection_no_newline)
  show ?case
    using Cons.prems t headerFileName_no_newline [of line]
    by (auto intro!: Cons.IH)
qed

lemma filter_splitLines_joinLines:
  assumes "list_all (\<lambda>l. newline \<notin> set l) ls"
  shows "filter isMetadataLine (splitLines (joinLines ls)) = filter isMetadataLine ls"
proof (cases "ls = []")
  case True
  then show ?thesis by (simp add: isMetadataLine_def)
next
  case False
  then show ?thesis using assms by (simp add: splitLines_joinLines)
qed

text \<open>
  C10. The truncator never drops, duplicates or reorders file metadata lines: for every
  diff text and every budget, the lines of the output that start with \<^verbatim>\<open>diff --git \<close>,
  \<^verbatim>\<open>index \<close>, \<^verbatim>\<open>+++\<close> or \<^verbatim>\<open>---\<close> are the lines of the input that do, each as often and
  in the same order.
\<close>

theorem truncateDiff_keeps_metadata:
  "filter isMetadataLine (splitLines (truncateDiff d m)) = filter isMetadataLine (splitLines d)"
proof (cases "m = 0 \<or> m \<le> 0")
  case True
  then show ?thesis by (simp add: truncateDiff_def)
next
  case False
  have nl: "list_all (\<lambda>l. newline \<notin> set l) (splitLines d)"
    using splitLines_no_newline [of _ d] by (auto simp: list_all_iff)
  have out: "list_all (\<lambda>l. newline \<notin> set l) (truncateLoop m [] [] [] False (splitLines d))"
    by (rule truncateLoop_no_newline) (simp_all add: nl)
  have "filter isMetadataLine (truncateLoop m [] [] [] False (splitLines d))
          = filter isMetadataLine (splitLines d)"
    using truncateLoop_metadata [of "[]" m "[]" "[]" False "splitLines d"] by simp
  then show ?thesis
    using False filter_splitLines_joinLines [OF out] by (simp add: truncateDiff_def)
qed

section \<open>The filter: segments, limits and cutoffs\<close>

text \<open>
  The loop over the lines of a diff made of a preamble and of segments whose header lines
  parse: each segment is read into \<open>currentFileLines\<close> whole, after the segment before it
  has been flushed.
\<close>

lemma flush_clears [simp]: "currentFileLines (flushCurrentFile opts s) = []"
  by (simp add: flushCurrentFile_def Let_def)

lemma flush_name [simp]: "currentFileName (flushCurrentFile opts s) = currentFileName s"
  by (simp add: flushCurrentFile_def Let_def)

lemma filterStep_body:
  "currentFileName s \<noteq> [] \<Longrightarrow> list_all (\<lambda>l. \<not> isFileHeader l) body \<Longrightarrow>
   foldl (filterStep opts) s body = s\<lparr>currentFileLines := currentFileLines s @ body\<rparr>"
proof (induction body arbitrary: s)
  case Nil
  then show ?case by simp
next
  case (Cons l body)
  have step: "filterStep opts s l = s\<lparr>currentFileLines := currentFileLines s @ [l]\<rparr>"
    using Cons.prems by (simp add: filterStep_def isFileHeader_def)
  show ?case
    using Cons.prems by (simp add: step Cons.IH)
qed

lemma filterStep_preamble:
  "currentFileName s = [] \<Longrightarrow> list_all (\<lambda>l. \<not> isFileHeader l) pre \<Longrightarrow>
   foldl (filterStep opts) s pre = s\<lparr>result := result s @ pre\<rparr>"
proof (induction pre arbitrary: s)
  case Nil
  then show ?case by simp
next
  case (Cons l pre)
  have step: "filterStep opts s l = s\<lparr>result := result s @ [l]\<rparr>"
    using Cons.prems by (simp add: filterStep_def isFileHeader_def)
  show ?case
    using Cons.prems by (simp add: step Cons.IH)
qed

lemma matchHeader_nonempty: "matchHeader l = Some g \<Longrightarrow> g \<noteq> []"
  using matchHeader_Some by blast

lemma filterStep_segment:
  assumes "wellFormedSegment seg"
  shows "foldl (filterStep opts) s (segmentLines seg) = loadSegment opts s seg"
proof -
  obtain g where g: "matchHeader (fst seg) = Some g" "g \<noteq> []"
    using assms matchHeader_nonempty by (auto simp: wellFormedSegment_def)
  have hd: "filterStep opts s (fst seg)
    = (flushCurrentFile opts s)\<lparr>currentFileName := g, currentFileLines := [fst seg]\<rparr>"
    using assms g by (simp add: filterStep_def wellFormedSegment_def isFileHeader_def)
  have "foldl (filterStep opts) (filterStep opts s (fst seg)) (snd seg)
    = (filterStep opts s (fst seg))\<lparr>currentFileLines :=
         currentFileLines (filterStep opts s (fst seg)) @ snd seg\<rparr>"
    using assms g by (intro filterStep_body) (simp_all add: hd wellFormedSegment_def)
  then show ?thesis
    using g by (simp add: hd segmentLines_def loadSegment_def segmentName_def)
qed

lemma filterStep_segments:
  "list_all wellFormedSegment segs \<Longrightarrow>
   foldl (filterStep opts) s (concat (map segmentLines segs)) = foldl (loadSegment opts) s segs"
  by (induction segs arbitrary: s) (simp_all add: filterStep_segment)

lemma filterLoop_segments:
  assumes "list_all (\<lambda>l. \<not> isFileHeader l) pre" and "list_all wellFormedSegment segs"
  shows "foldl (filterStep opts) initialState (pre @ concat (map segmentLines segs))
    = foldl (loadSegment opts) (initialState\<lparr>result := pre\<rparr>) segs"
proof -
  have "foldl (filterStep opts) initialState pre = initialState\<lparr>result := pre\<rparr>"
    using filterStep_preamble [of initialState pre opts] assms(1)
    by (simp add: initialState_def)
  then show ?thesis by (simp add: filterStep_segments [OF assms(2)])
qed

lemma showNat_digit: "n < 10 \<Longrightarrow> showNat n = [digitChar n]"
  by (subst showNat.simps) simp

lemma show_small:
  "showNat 1 = ''1''" "showNat 2 = ''2''" "showNat 3 = ''3''" "showInt 2 = ''2''"
  "showInt 15 = ''15''" "showNat 10 = ''10''" "showNat (Suc 0) = ''1''"
  by code_simp+

text \<open>Once a cutoff flag is set, every file flushed is excluded, and no step resets a flag.\<close>

lemma flush_sticky_maxFiles:
  "reachedMaxFiles s \<Longrightarrow> currentFileLines s \<noteq> [] \<Longrightarrow>
   flushCurrentFile opts s = s\<lparr>excludedFiles := excludedFiles s + 1, currentFileLines := []\<rparr>"
  by (simp add: flushCurrentFile_def Let_def)


lemma flush_keeps_flags:
  "(reachedMaxFiles s \<longrightarrow> reachedMaxFiles (flushCurrentFile opts s))
   \<and> (reachedMaxLines s \<longrightarrow> reachedMaxLines (flushCurrentFile opts s))"
  by (simp add: flushCurrentFile_def Let_def)

lemma filterStep_keeps_flags:
  "(reachedMaxFiles s \<longrightarrow> reachedMaxFiles (filterStep opts s line))
   \<and> (reachedMaxLines s \<longrightarrow> reachedMaxLines (filterStep opts s line))"
  using flush_keeps_flags [of s opts] by (simp add: filterStep_def Let_def)

text \<open>
  The \<open>maxFiles\<close> cutoff on a diff whose header lines parse. For five file segments (each
  headed by a \<^verbatim>\<open>diff --git a/... b/...\<close> line) that all pass the path patterns, filtering
  with \<open>maxFiles = 2\<close> and no line limit keeps exactly the lines of the first two segments
  (after the preamble, and followed by the summary block), and the stats are
  \<open>includedFiles = 2\<close>, \<open>excludedFiles = 3\<close>. In any state where the cutoff has been reached
  the file flushed is excluded, whatever its name, and no step of the loop resets the flag.
\<close>

theorem maxFiles_cutoff:
  assumes "splitLines d = pre @ concat (map segmentLines [s1, s2, s3, s4, s5])"
    and "list_all (\<lambda>l. \<not> isFileHeader l) pre"
    and "list_all wellFormedSegment [s1, s2, s3, s4, s5]"
    and "list_all (segmentPasses opts) [s1, s2, s3, s4, s5]"
    and "maxFiles opts = Some 2"
    and "\<not> truthy (maxTotalLines opts)"
  shows "filtered (filterDiff d opts)
           = joinLines (pre @ segmentLines s1 @ segmentLines s2
               @ ['''', ''[*** DIFF FILTERED: 3 files excluded ***]'',
                  ''[*** Reached maxFiles limit of 2 ***]'',
                  ''[*** Showing 2 files, ''
                    @ showNat (length (segmentLines s1) + length (segmentLines s2))
                    @ '' lines ***]''])
         \<and> stats (filterDiff d opts)
           = \<lparr>includedFiles = 2, excludedFiles = 3,
              totalLines = length (segmentLines s1) + length (segmentLines s2)\<rparr>
         \<and> (reachedMaxFiles st \<and> currentFileLines st \<noteq> [] \<longrightarrow>
              flushCurrentFile opts st
                = st\<lparr>excludedFiles := excludedFiles st + 1, currentFileLines := []\<rparr>)
         \<and> (reachedMaxFiles st \<longrightarrow> reachedMaxFiles (filterStep opts st line))"
proof -
  have slow: "truthy (maxFiles opts)"
    using assms(5) by (simp add: truthy_def)
  have mt: "(case maxTotalLines opts of None \<Rightarrow> False | Some m \<Rightarrow> m \<noteq> 0 \<and> P m) = False" for P
    using assms(6) by (simp add: truthy_def split: option.splits)
  have ne: "segmentLines s1 \<noteq> []" "segmentLines s2 \<noteq> []" "segmentLines s3 \<noteq> []"
    "segmentLines s4 \<noteq> []" "segmentLines s5 \<noteq> []"
    by (simp_all add: segmentLines_def)
  have pass: "fileMatchesPatterns (segmentName s1) (includePaths opts) (excludePaths opts)"
    "fileMatchesPatterns (segmentName s2) (includePaths opts) (excludePaths opts)"
    "fileMatchesPatterns (segmentName s3) (includePaths opts) (excludePaths opts)"
    "fileMatchesPatterns (segmentName s4) (includePaths opts) (excludePaths opts)"
    "fileMatchesPatterns (segmentName s5) (includePaths opts) (excludePaths opts)"
    using assms(4) by (simp_all add: segmentPasses_def)
  define final where "final = flushCurrentFile opts
     (foldl (loadSegment opts) (initialState\<lparr>result := pre\<rparr>) [s1, s2, s3, s4, s5])"
  have final: "final = \<lparr>includedFiles = 2, excludedFiles = 3,
      totalLines = length (segmentLines s1) + length (segmentLines s2),
      result = pre @ segmentLines s1 @ segmentLines s2, currentFileLines = [],
      currentFileName = segmentName s5, reachedMaxFiles = True, reachedMaxLines = False\<rparr>"
    unfolding final_def
    by (simp add: loadSegment_def flushCurrentFile_def Let_def initialState_def
        ne pass mt assms(5))
  have loop: "flushCurrentFile opts (foldl (filterStep opts) initialState (splitLines d)) = final"
    unfolding final_def assms(1) using filterLoop_segments [OF assms(2) assms(3)] by simp
  have out: "filterDiff d opts
    = \<lparr>filtered = joinLines (result final @ filterSummary opts final),
       stats = \<lparr>includedFiles = includedFiles final, excludedFiles = excludedFiles final,
                totalLines = totalLines final\<rparr>\<rparr>"
    by (simp add: filterDiff_def Let_def slow loop)
  have summary: "filterSummary opts final
    = ['''', ''[*** DIFF FILTERED: 3 files excluded ***]'',
       ''[*** Reached maxFiles limit of 2 ***]'',
       ''[*** Showing 2 files, ''
         @ showNat (length (segmentLines s1) + length (segmentLines s2)) @ '' lines ***]'']"
    by (simp add: filterSummary_def final showLimit_def assms(5) show_small)
  show ?thesis
    using flush_sticky_maxFiles [of st opts] filterStep_keeps_flags [of st opts line]
    by (simp add: out summary) (simp add: final)
qed

theorem maxFiles_cutoff_witness:
  "filtered (filterDiff fiveFiles (onlyMaxFiles 2))
     = joinLines [''diff --git a/f1 b/f1'', ''+a'', ''diff --git a/f2 b/f2'', ''+b'', '''',
         ''[*** DIFF FILTERED: 3 files excluded ***]'',
         ''[*** Reached maxFiles limit of 2 ***]'',
         ''[*** Showing 2 files, 4 lines ***]'']
   \<and> stats (filterDiff fiveFiles (onlyMaxFiles 2))
     = \<lparr>includedFiles = 2, excludedFiles = 3, totalLines = 4\<rparr>"
proof -
  define segs where "segs = [(''diff --git a/f1 b/f1'', [''+a'']), (''diff --git a/f2 b/f2'', [''+b'']),
      (''diff --git a/f3 b/f3'', [''+c'']), (''diff --git a/f4 b/f4'', [''+d'']),
      (''diff --git a/f5 b/f5'', [''+e''])]"
  have h1: "splitLines fiveFiles = [] @ concat (map segmentLines
     [(''diff --git a/f1 b/f1'', [''+a'']), (''diff --git a/f2 b/f2'', [''+b'']),
      (''diff --git a/f3 b/f3'', [''+c'']), (''diff --git a/f4 b/f4'', [''+d'']),
      (''diff --git a/f5 b/f5'', [''+e''])])"
    by code_simp
  have h2: "list_all (\<lambda>l. \<not> isFileHeader l) []" by simp
  have h3: "list_all wellFormedSegment
     [(''diff --git a/f1 b/f1'', [''+a'']), (''diff --git a/f2 b/f2'', [''+b'']),
      (''diff --git a/f3 b/f3'', [''+c'']), (''diff --git a/f4 b/f4'', [''+d'']),
      (''diff --git a/f5 b/f5'', [''+e''])]"
    by code_simp
  have h4: "list_all (segmentPasses (onlyMaxFiles 2))
     [(''diff --git a/f1 b/f1'', [''+a'']), (''diff --git a/f2 b/f2'', [''+b'']),
      (''diff --git a/f3 b/f3'', [''+c'']), (''diff --git a/f4 b/f4'', [''+d'']),
      (''diff --git a/f5 b/f5'', [''+e''])]"
    by (simp add: segmentPasses_def fileMatchesPatterns_def onlyMaxFiles_def)
  have h5: "maxFiles (onlyMaxFiles 2) = Some 2" by (simp add: onlyMaxFiles_def)
  have h6: "\<not> truthy (maxTotalLines (onlyMaxFiles 2))" by (simp add: onlyMaxFiles_def truthy_def)
  have n4: "showNat 4 = ''4''" "showNat (Suc (Suc (Suc (Suc 0)))) = ''4''" by code_simp+
  show ?thesis
    using maxFiles_cutoff [OF h1 h2 h3 h4 h5 h6, of initialState "[]"]
    by (simp add: segmentLines_def n4)
qed

text \<open>
  C5 at five files that all pass (no pattern), the last three with headers that do not
  parse, and \<open>maxFiles = 2\<close>. The counters are as the claim says, \<open>includedFiles = 2\<close> and
  \<open>excludedFiles = 3\<close>, and the summary reports the cutoff; but the three files are not
  excluded from the output: their names are empty, the loop takes the empty name for "no
  file yet", and their lines after the header are pushed straight to the result.
\<close>

theorem maxFiles_unparsed_headers_leak:
  "list_all (\<lambda>name. fileMatchesPatterns name (includePaths (onlyMaxFiles 2))
       (excludePaths (onlyMaxFiles 2))) [''f1'', ''f2'', '''']
   \<and> map matchHeader [''diff --git a/f1 b/f1'', ''diff --git a/f2 b/f2'', ''diff --git f3 f3'',
        ''diff --git f4 f4'', ''diff --git f5 f5'']
       = [Some ''f1'', Some ''f2'', None, None, None]
   \<and> filterDiff fiveFilesThreeUnparsed (onlyMaxFiles 2)
       = \<lparr>filtered = joinLines
            [''diff --git a/f1 b/f1'', ''+a'', ''diff --git a/f2 b/f2'', ''+b'',
             ''+SECRET3'', ''+SECRET4'', ''+SECRET5'', '''',
             ''[*** DIFF FILTERED: 3 files excluded ***]'',
             ''[*** Reached maxFiles limit of 2 ***]'',
             ''[*** Showing 2 files, 4 lines ***]''],
          stats = \<lparr>includedFiles = 2, excludedFiles = 3, totalLines = 4\<rparr>\<rparr>"
  by code_simp






text \<open>
  C4 at a header that does not parse. The name is the empty string, the exclude pattern
  \<^verbatim>\<open>**\<close> matches it and the file is counted as excluded; but the loop takes the empty
  name for "no file yet" and pushes the lines after the header straight to the result: the
  hunk of the excluded file is in the output.
\<close>

theorem unparsed_header_lines_bypass_filter:
  "matchHeader ''diff --git x y'' = None
   \<and> \<not> fileMatchesPatterns [] (includePaths excludeEverything) (excludePaths excludeEverything)
   \<and> filterDiff unparsedHeaderDiff excludeEverything
       = \<lparr>filtered = joinLines [''@@ -1 +1 @@'', ''-old'', ''+new'', '''',
             ''[*** DIFF FILTERED: 1 files excluded ***]'',
             ''[*** Showing 0 files, 0 lines ***]''],
          stats = \<lparr>includedFiles = 0, excludedFiles = 1, totalLines = 0\<rparr>\<rparr>"
  by code_simp

text \<open>
  C9 at the same diff, every file kept (\<open>maxFiles = 5\<close>, no pattern): the lines after the
  unparsed header are pushed to the result before the header line, which is flushed at the
  end; the output is not the input.
\<close>

theorem unparsed_header_reorders_output:
  "filterDiff unparsedHeaderDiff (onlyMaxFiles 5)
     = \<lparr>filtered = joinLines [''@@ -1 +1 @@'', ''-old'', ''+new'', ''diff --git x y''],
        stats = \<lparr>includedFiles = 1, excludedFiles = 0, totalLines = 1\<rparr>\<rparr>
   \<and> filtered (filterDiff unparsedHeaderDiff (onlyMaxFiles 5)) \<noteq> unparsedHeaderDiff"
  by code_simp

text \<open>
  C3 at a negative limit: \<open>maxFiles = -1\<close> and \<open>maxTotalLines = -1\<close> are truthy, the first
  file that passes the patterns reaches the cutoff, and every file is excluded; with no
  limit the same diff is returned unchanged. The truncator returns its input for a
  negative budget.
\<close>

theorem negative_limit_excludes_files:
  "filterDiff oneFile (onlyMaxFiles (- 1))
     = \<lparr>filtered = joinLines ['''', ''[*** DIFF FILTERED: 1 files excluded ***]'',
          ''[*** Reached maxFiles limit of -1 ***]'', ''[*** Showing 0 files, 0 lines ***]''],
        stats = \<lparr>includedFiles = 0, excludedFiles = 1, totalLines = 0\<rparr>\<rparr>
   \<and> filterDiff oneFile (onlyMaxTotalLines (- 1))
     = \<lparr>filtered = joinLines ['''', ''[*** DIFF FILTERED: 1 files excluded ***]'',
          ''[*** Reached maxTotalLines limit of -1 ***]'', ''[*** Showing 0 files, 0 lines ***]''],
        stats = \<lparr>includedFiles = 0, excludedFiles = 1, totalLines = 0\<rparr>\<rparr>
   \<and> filterDiff oneFile noOptions
     = \<lparr>filtered = oneFile, stats = \<lparr>includedFiles = 0, excludedFiles = 0, totalLines = 4\<rparr>\<rparr>
   \<and> truncateDiff oneFile (- 1) = oneFile"
  by code_simp

section \<open>The path matcher implements the pattern language\<close>

lemma special_chars [simp]:
  "\<not> regexSpecial CHR ''*''" "\<not> regexSpecial CHR ''?''" "regexSpecial CHR ''{''"
  "regexSpecial CHR ''[''" "regexSpecial CHR ''.''" "regexSpecial backslash"
  "backslash \<noteq> CHR ''*''" "backslash \<noteq> CHR ''?''" "backslash \<noteq> CHR ''{''"
  by (simp_all add: regexSpecial_def backslash_def)

lemma globTokens_globstar: "globTokens (CHR ''*'' # CHR ''*'' # ds) = GlobStar # globTokens ds"
  by simp

lemma globTokens_run:
  "\<not> startsWith cs ''*'' \<Longrightarrow> globTokens (CHR ''*'' # cs) = AnyRun # globTokens cs"
  by (cases cs) simp_all

lemma globTokens_one: "globTokens (CHR ''?'' # cs) = AnyOne # globTokens cs"
  by simp

lemma globTokens_literal:
  "c \<noteq> CHR ''*'' \<Longrightarrow> c \<noteq> CHR ''?'' \<Longrightarrow> globTokens (c # cs) = Literal c # globTokens cs"
  by simp

declare globTokens.simps(2) [simp del]

declare globTokens_globstar [simp] globTokens_run [simp] globTokens_one [simp]
  globTokens_literal [simp]

lemma pattern_induct [case_names Nil GlobStar Run One Literal]:
  assumes "P []"
    and "\<And>ds. P ds \<Longrightarrow> P (CHR ''*'' # CHR ''*'' # ds)"
    and "\<And>cs. \<not> startsWith cs ''*'' \<Longrightarrow> P cs \<Longrightarrow> P (CHR ''*'' # cs)"
    and "\<And>cs. P cs \<Longrightarrow> P (CHR ''?'' # cs)"
    and "\<And>c cs. c \<noteq> CHR ''*'' \<Longrightarrow> c \<noteq> CHR ''?'' \<Longrightarrow> P cs \<Longrightarrow> P (c # cs)"
  shows "P pattern"
proof (induction pattern rule: length_induct)
  case (1 xs)
  show ?case
  proof (cases xs)
    case Nil
    then show ?thesis using assms(1) by simp
  next
    case (Cons c cs)
    have cs: "P cs" using 1 Cons by simp
    show ?thesis
    proof (cases "c = CHR ''*''")
      case True
      show ?thesis
      proof (cases "startsWith cs ''*''")
        case False
        then show ?thesis using assms(3) cs Cons True by simp
      next
        case st: True
        then obtain ds where ds: "cs = CHR ''*'' # ds" by (cases cs) auto
        have "P ds" using 1 Cons ds by simp
        then show ?thesis using assms(2) Cons True ds by simp
      qed
    next
      case False
      then show ?thesis using assms(4) assms(5) cs Cons by (cases "c = CHR ''?''") auto
    qed
  qed
qed

lemma startsRun_globTokens: "startsRun (globTokens cs) = startsWith cs ''*''"
  by (induction cs rule: pattern_induct) (simp_all add: globTokens_run)

lemma validTokens_globTokens: "validTokens (globTokens pattern)"
proof (induction pattern rule: pattern_induct)
  case (Run cs)
  then show ?case by (simp add: globTokens_run startsRun_globTokens)
qed simp_all

text \<open>The first pass, on the tokens of the pattern.\<close>

lemma escapeRegex_Cons:
  "escapeRegex (c # cs) = (if regexSpecial c then [backslash, c] else [c]) @ escapeRegex cs"
  by (simp add: escapeRegex_def)

lemma escapeRegex_tokens: "escapeRegex pattern = concat (map render1 (globTokens pattern))"
proof (induction pattern rule: pattern_induct)
  case Nil
  show ?case by (simp add: escapeRegex_def)
next
  case (GlobStar ds)
  then show ?case by (simp add: escapeRegex_Cons)
next
  case (Run cs)
  then show ?case by (simp add: escapeRegex_Cons globTokens_run)
next
  case (One cs)
  then show ?case by (simp add: escapeRegex_Cons)
next
  case (Literal c cs)
  then show ?case by (simp add: escapeRegex_Cons)
qed

text \<open>The literal replacements, and the four of them on the tokens.\<close>

lemma replaceAll_Nil: "replaceAll lit rep [] = []"
  by (simp add: replaceAll.simps)

lemma replaceAll_skip:
  "\<not> startsWith (c # s) lit \<Longrightarrow> replaceAll lit rep (c # s) = c # replaceAll lit rep s"
  by (subst replaceAll.simps) (auto simp: replaceAll.simps)

lemma startsWith_append: "startsWith (lit @ s) lit"
  by (induction lit) simp_all

lemma replaceAll_hit:
  "lit \<noteq> [] \<Longrightarrow> replaceAll lit rep (lit @ s) = rep @ replaceAll lit rep s"
  by (subst replaceAll.simps) (simp add: startsWith_append)

lemma replaceAll_char:
  "replaceAll [a] rep s = concat (map (\<lambda>c. if c = a then rep else [c]) s)"
proof (induction s)
  case Nil
  show ?case by (simp add: replaceAll_Nil)
next
  case (Cons c s)
  show ?case
  proof (cases "c = a")
    case True
    then show ?thesis using Cons replaceAll_hit [of "[a]" rep s] by simp
  next
    case False
    then show ?thesis using Cons by (simp add: replaceAll_skip)
  qed
qed

lemma render1_no_star:
  "validTokens ts \<Longrightarrow> \<not> startsRun ts \<Longrightarrow> \<not> startsWith (concat (map render1 ts)) ''*''"
proof (cases ts)
  case Nil
  then show ?thesis by simp
next
  case (Cons t ts')
  assume "validTokens ts" "\<not> startsRun ts"
  then show ?thesis using Cons by (cases t) auto
qed

lemma stage2_tokens:
  "validTokens toks \<Longrightarrow>
   replaceAll ''**'' ''{{GLOBSTAR}}'' (concat (map render1 toks)) = concat (map render2 toks)"
proof (induction toks)
  case Nil
  show ?case by (simp add: replaceAll_Nil)
next
  case (Cons t ts)
  then have ih: "replaceAll ''**'' ''{{GLOBSTAR}}'' (concat (map render1 ts))
    = concat (map render2 ts)"
    by simp
  show ?case
  proof (cases t)
    case (Literal c)
    then show ?thesis using Cons.prems ih by (simp add: replaceAll_skip)
  next
    case AnyOne
    then show ?thesis using ih by (simp add: replaceAll_skip)
  next
    case AnyRun
    then have "\<not> startsWith (concat (map render1 ts)) ''*''"
      using Cons.prems render1_no_star [of ts] by simp
    then show ?thesis using AnyRun ih by (simp add: replaceAll_skip)
  next
    case GlobStar
    then show ?thesis
      using ih replaceAll_hit [of "''**''" "''{{GLOBSTAR}}''" "concat (map render1 ts)"]
      by simp
  qed
qed

lemma replaceAll_char_concat:
  "replaceAll [a] rep (concat (map r toks)) = concat (map (\<lambda>t. replaceAll [a] rep (r t)) toks)"
  by (induction toks) (simp_all add: replaceAll_char)

lemma stage3_token: "plainToken t \<Longrightarrow> replaceAll ''*'' ''[^/]*'' (render2 t) = render3 t"
  by (cases t) (simp_all add: replaceAll_char)

lemma stage4_token: "plainToken t \<Longrightarrow> replaceAll ''?'' ''[^/]'' (render3 t) = render4 t"
  by (cases t) (simp_all add: replaceAll_char)

lemma validTokens_plain: "validTokens toks \<Longrightarrow> t \<in> set toks \<Longrightarrow> plainToken t"
  by (induction toks) auto

lemma stage3_tokens:
  "validTokens toks \<Longrightarrow>
   replaceAll ''*'' ''[^/]*'' (concat (map render2 toks)) = concat (map render3 toks)"
  using validTokens_plain [of toks]
  by (simp add: replaceAll_char_concat stage3_token cong: map_cong)

lemma stage4_tokens:
  "validTokens toks \<Longrightarrow>
   replaceAll ''?'' ''[^/]'' (concat (map render3 toks)) = concat (map render4 toks)"
  using validTokens_plain [of toks]
  by (simp add: replaceAll_char_concat stage4_token cong: map_cong)

lemma render4_no_placeholder:
  "validTokens ts \<Longrightarrow> \<not> startsWith (concat (map render4 ts)) ''{G''"
proof (cases ts)
  case Nil
  then show ?thesis by simp
next
  case (Cons t ts')
  assume "validTokens ts"
  then show ?thesis using Cons by (cases t) (auto simp: regexSpecial_def)
qed

lemma startsWith_two: "startsWith s (a # b # q) \<Longrightarrow> startsWith s [a, b]"
  by (cases s; cases "tl s") auto

lemma stage5_tokens:
  "validTokens toks \<Longrightarrow>
   replaceAll ''{{GLOBSTAR}}'' ''.*'' (concat (map render4 toks)) = concat (map render5 toks)"
proof (induction toks)
  case Nil
  show ?case by (simp add: replaceAll_Nil)
next
  case (Cons t ts)
  then have ih: "replaceAll ''{{GLOBSTAR}}'' ''.*'' (concat (map render4 ts))
    = concat (map render5 ts)"
    by simp
  have "\<not> startsWith (concat (map render4 ts)) ''{G''"
    using Cons.prems render4_no_placeholder [of ts] by simp
  then have rest: "\<not> startsWith (concat (map render4 ts)) ''{GLOBSTAR}}''"
    using startsWith_two [of "concat (map render4 ts)" "CHR ''{''" "CHR ''G''" "''LOBSTAR}}''"]
    by blast
  show ?case
  proof (cases t)
    case (Literal c)
    show ?thesis
    proof (cases "regexSpecial c")
      case True
      then show ?thesis using Literal ih rest by (simp add: replaceAll_skip)
    next
      case False
      then have "c \<noteq> CHR ''{''" by auto
      then show ?thesis using Literal False ih by (simp add: replaceAll_skip)
    qed
  next
    case AnyOne
    then show ?thesis using ih by (simp add: replaceAll_skip)
  next
    case AnyRun
    then show ?thesis using ih by (simp add: replaceAll_skip)
  next
    case GlobStar
    then show ?thesis
      using ih replaceAll_hit [of "''{{GLOBSTAR}}''" "''.*''" "concat (map render4 ts)"]
      by simp
  qed
qed

lemma globToRegex_tokens: "globToRegex pattern = concat (map render5 (globTokens pattern))"
  by (simp add: globToRegex_def escapeRegex_tokens validTokens_globTokens
      stage2_tokens stage3_tokens stage4_tokens stage5_tokens)

text \<open>The source built from the tokens is read as one item per token.\<close>

lemma render5_no_star:
  "validTokens ts \<Longrightarrow> \<not> startsWith (concat (map render5 ts)) ''*''"
proof (cases ts)
  case Nil
  then show ?thesis by simp
next
  case (Cons t ts')
  assume "validTokens ts"
  then show ?thesis using Cons by (cases t) auto
qed

lemma parseRegex_Nil: "parseRegex [] = Some []"
  by (simp add: parseRegex.simps)

lemma parseRegex_one:
  "parseAtom s = Some (a, rest) \<Longrightarrow> \<not> startsWith rest ''*'' \<Longrightarrow>
   parseRegex s = map_option (Cons (One a)) (parseRegex rest)"
  by (subst parseRegex.simps) auto

lemma parseRegex_star:
  "parseAtom s = Some (a, CHR ''*'' # rest) \<Longrightarrow>
   parseRegex s = map_option (Cons (Star a)) (parseRegex rest)"
  by (subst parseRegex.simps) auto

lemma parseAtom_plain:
  "\<not> regexSpecial c \<Longrightarrow> c \<noteq> CHR ''*'' \<Longrightarrow> c \<noteq> CHR ''?'' \<Longrightarrow> parseAtom (c # s) = Some (Lit c, s)"
  by (auto simp: regexSpecial_def)

lemma parseAtom_escaped:
  "regexSpecial c \<Longrightarrow> parseAtom (backslash # c # s) = Some (Lit c, s)"
  by simp

lemma parseAtom_class: "parseAtom (''[^/]'' @ s) = Some (NotSlash, s)"
  by (simp add: backslash_def)

lemma parseAtom_dot: "parseAtom (CHR ''.'' # s) = Some (Dot, s)"
  by (simp add: backslash_def)

lemma parseRegex_tokens:
  "validTokens toks \<Longrightarrow> parseRegex (concat (map render5 toks)) = Some (map tokenItem toks)"
proof (induction toks)
  case Nil
  show ?case by (simp add: parseRegex_Nil)
next
  case (Cons t ts)
  then have ih: "parseRegex (concat (map render5 ts)) = Some (map tokenItem ts)"
    by simp
  have ns: "\<not> startsWith (concat (map render5 ts)) ''*''"
    using Cons.prems render5_no_star [of ts] by simp
  show ?case
  proof (cases t)
    case (Literal c)
    show ?thesis
    proof (cases "regexSpecial c")
      case True
      then show ?thesis
        using Literal ih parseRegex_one [OF parseAtom_escaped [OF True] ns] by simp
    next
      case False
      then have "parseAtom (c # concat (map render5 ts)) = Some (Lit c, concat (map render5 ts))"
        using Cons.prems Literal by (intro parseAtom_plain) simp_all
      then show ?thesis
        using Literal False ih parseRegex_one [OF _ ns] by simp
    qed
  next
    case AnyOne
    then show ?thesis
      using ih parseRegex_one [OF parseAtom_class ns] by simp
  next
    case AnyRun
    then show ?thesis
      using ih parseRegex_star [OF parseAtom_class [of "CHR ''*'' # concat (map render5 ts)"]]
      by simp
  next
    case GlobStar
    then show ?thesis
      using ih parseRegex_star [OF parseAtom_dot [of "CHR ''*'' # concat (map render5 ts)"]]
      by simp
  qed
qed

text \<open>The test against the items is the match of the path against the tokens.\<close>

lemma ex_le_Suc: "(\<exists>n\<le>Suc m. P n) = (P 0 \<or> (\<exists>k\<le>m. P (Suc k)))"
proof
  assume "\<exists>n\<le>Suc m. P n"
  then obtain n where n: "n \<le> Suc m" "P n" by blast
  then show "P 0 \<or> (\<exists>k\<le>m. P (Suc k))" by (cases n) auto
next
  assume "P 0 \<or> (\<exists>k\<le>m. P (Suc k))"
  then show "\<exists>n\<le>Suc m. P n" by auto
qed

lemma regexTest_Star:
  assumes "\<And>w. Q w = list_all (atomAccepts a) w"
  shows "regexTest (Star a # rs) s = (\<exists>n\<le>length s. Q (take n s) \<and> regexTest rs (drop n s))"
proof (induction s)
  case Nil
  show ?case by (simp add: assms)
next
  case (Cons c cs)
  show ?case by (simp add: Cons ex_le_Suc assms) blast
qed

lemma regexTest_One:
  assumes "\<And>w. Q w = (\<exists>c. w = [c] \<and> atomAccepts a c)"
  shows "regexTest (One a # rs) s = (\<exists>n\<le>length s. Q (take n s) \<and> regexTest rs (drop n s))"
proof (cases s)
  case Nil
  then show ?thesis by (simp add: assms)
next
  case (Cons c cs)
  show ?thesis
  proof
    assume "regexTest (One a # rs) s"
    then have "atomAccepts a c" "regexTest rs cs" using Cons by simp_all
    then have "Q (take 1 s) \<and> regexTest rs (drop 1 s)" using Cons by (simp add: assms)
    moreover have "1 \<le> length s" using Cons by simp
    ultimately show "\<exists>n\<le>length s. Q (take n s) \<and> regexTest rs (drop n s)" by blast
  next
    assume "\<exists>n\<le>length s. Q (take n s) \<and> regexTest rs (drop n s)"
    then obtain n where n: "Q (take n s)" "regexTest rs (drop n s)" by blast
    then obtain d where d: "take n s = [d]" "atomAccepts a d" using assms by blast
    then obtain k where k: "n = Suc k" using Cons by (cases n) auto
    then have "d = c" "take k cs = []" using d Cons by simp_all
    then have "drop k cs = cs" by (cases k) auto
    then show "regexTest (One a # rs) s" using n d k Cons \<open>d = c\<close> by simp
  qed
qed

lemma tokenItem_step:
  "regexTest (tokenItem t # rs) s
     = (\<exists>n\<le>length s. tokenMatches (\<lambda>c. \<not> lineTerminator c) t (take n s)
          \<and> regexTest rs (drop n s))"
proof (cases t)
  case (Literal c)
  have q: "tokenMatches (\<lambda>c. \<not> lineTerminator c) (Literal c) w
    = (\<exists>d. w = [d] \<and> atomAccepts (Lit c) d)" for w
    by auto
  show ?thesis unfolding Literal tokenItem.simps
    by (rule regexTest_One [where Q = "tokenMatches (\<lambda>c. \<not> lineTerminator c) (Literal c)", OF q])
next
  case AnyOne
  have q: "tokenMatches (\<lambda>c. \<not> lineTerminator c) AnyOne w
    = (\<exists>d. w = [d] \<and> atomAccepts NotSlash d)" for w
    by (cases w) auto
  show ?thesis unfolding AnyOne tokenItem.simps
    by (rule regexTest_One [where Q = "tokenMatches (\<lambda>c. \<not> lineTerminator c) AnyOne", OF q])
next
  case AnyRun
  have q: "tokenMatches (\<lambda>c. \<not> lineTerminator c) AnyRun w = list_all (atomAccepts NotSlash) w"
    for w
    by (induction w) auto
  show ?thesis unfolding AnyRun tokenItem.simps
    by (rule regexTest_Star [where Q = "tokenMatches (\<lambda>c. \<not> lineTerminator c) AnyRun", OF q])
next
  case GlobStar
  have q: "tokenMatches (\<lambda>c. \<not> lineTerminator c) GlobStar w = list_all (atomAccepts Dot) w"
    for w
    by (induction w) auto
  show ?thesis unfolding GlobStar tokenItem.simps
    by (rule regexTest_Star [where Q = "tokenMatches (\<lambda>c. \<not> lineTerminator c) GlobStar", OF q])
qed

lemma regexTest_tokens:
  "regexTest (map tokenItem toks) path
     = globMatchesWith (\<lambda>c. \<not> lineTerminator c) toks path"
  by (induction toks arbitrary: path) (simp_all add: tokenItem_step)

lemma matchesGlobPattern_refines: "matchesGlobPattern path pattern = globMatches path pattern"
  by (simp add: matchesGlobPattern_def globToRegex_tokens parseRegex_tokens
      validTokens_globTokens regexTest_tokens globMatches_def)

text \<open>On a path without line terminators the two readings of \<^verbatim>\<open>**\<close> agree.\<close>

lemma tokenMatches_no_terminator:
  "list_all inRun w \<Longrightarrow> tokenMatches inRun t w = tokenMatches (\<lambda>c. True) t w"
  by (cases t) (simp_all add: list_all_iff)

lemma globMatchesWith_no_terminator:
  "list_all inRun path \<Longrightarrow>
   globMatchesWith inRun toks path = globMatchesWith (\<lambda>c. True) toks path"
proof (induction toks arbitrary: path)
  case Nil
  show ?case by simp
next
  case (Cons t ts)
  have tk: "list_all inRun (take n path)" and dr: "list_all inRun (drop n path)" for n
    using Cons.prems by (auto simp: list_all_iff dest: in_set_takeD in_set_dropD)
  show ?case
    by (simp add: Cons.IH [OF dr] tokenMatches_no_terminator [OF tk])
qed

lemma file_name_no_terminator:
  "matchHeader line = Some name \<Longrightarrow> list_all (\<lambda>c. \<not> lineTerminator c) name"
  using matchHeader_no_terminator [of line name] by (auto simp: list_all_iff)

text \<open>
  C8. The matcher implements the stated pattern language, anchored over the whole path:
  \<^verbatim>\<open>*\<close> matches any run of characters without \<^verbatim>\<open>/\<close>, \<^verbatim>\<open>**\<close> any run of characters,
  \<^verbatim>\<open>/\<close> included, \<^verbatim>\<open>?\<close> one character other than \<^verbatim>\<open>/\<close>, every other character itself.
  This holds on every path the matcher is given, the empty name or a name read from a
  header line, and on every path without a line terminator. The three examples of the
  specification hold.
\<close>

theorem glob_semantics:
  "(path = [] \<or> matchHeader line = Some path \<longrightarrow>
      matchesGlobPattern path pattern = globMatchesAsStated path pattern)
   \<and> (list_all (\<lambda>c. \<not> lineTerminator c) path \<longrightarrow>
        matchesGlobPattern path pattern = globMatchesAsStated path pattern)
   \<and> matchesGlobPattern ''src/a/b.ts'' ''src/**/b.ts''
   \<and> matchesGlobPattern ''src/a/b.ts'' ''src/*/b.ts''
   \<and> \<not> matchesGlobPattern ''src/a/b/c.ts'' ''src/*/c.ts''"
proof -
  have stated: "matchesGlobPattern p pattern = globMatchesAsStated p pattern"
    if "list_all (\<lambda>c. \<not> lineTerminator c) p" for p
    using globMatchesWith_no_terminator [OF that, of "globTokens pattern"]
    by (simp add: matchesGlobPattern_refines globMatches_def globMatchesAsStated_def)
  have reach: "list_all (\<lambda>c. \<not> lineTerminator c) path"
    if "path = [] \<or> matchHeader line = Some path"
    using that file_name_no_terminator [of line path] by auto
  have e1: "matchesGlobPattern ''src/a/b.ts'' ''src/**/b.ts''" by code_simp
  have e2: "matchesGlobPattern ''src/a/b.ts'' ''src/*/b.ts''" by code_simp
  have e3: "\<not> matchesGlobPattern ''src/a/b/c.ts'' ''src/*/c.ts''" by code_simp
  show ?thesis
    using stated [of path] reach e1 e2 e3 by blast
qed

theorem glob_semantics_witness:
  "list_all (\<lambda>c. \<not> lineTerminator c) ''src/a/b.ts''
   \<and> globMatchesAsStated ''src/a/b.ts'' ''src/**/b.ts''
   \<and> matchHeader ''diff --git a/lib/x.y b/lib/x.y'' = Some ''lib/x.y''
   \<and> globMatchesAsStated ''lib/x.y'' ''lib/?.*''
   \<and> \<not> globMatchesAsStated [] ''?''"
proof -
  have t: "list_all (\<lambda>c. \<not> lineTerminator c) ''src/a/b.ts''"
    by (simp add: lineTerminator_def newline_def carriageReturn_def)
  have h: "matchHeader ''diff --git a/lib/x.y b/lib/x.y'' = Some ''lib/x.y''" by code_simp
  have m: "matchesGlobPattern ''lib/x.y'' ''lib/?.*''" by code_simp
  have n: "\<not> matchesGlobPattern [] ''?''" by code_simp
  show ?thesis
    using t h m n
      glob_semantics [of "''src/a/b.ts''" "[]" "''src/**/b.ts''"]
      glob_semantics [of "''lib/x.y''" "''diff --git a/lib/x.y b/lib/x.y''" "''lib/?.*''"]
      glob_semantics [of "[]" "[]" "''?''"]
    by blast
qed

text \<open>
  Beyond the paths the matcher is given: \<^verbatim>\<open>**\<close> is translated to \<^verbatim>\<open>.*\<close>, and the dot of a
  regular expression matches no line terminator, so a path with a line feed is refused. A
  name read from a header line holds none, being itself a run of the dot.
\<close>

lemma globstar_refuses_line_feed:
  "globMatchesAsStated [CHR ''a'', newline, CHR ''b''] ''**''
   \<and> \<not> matchesGlobPattern [CHR ''a'', newline, CHR ''b''] ''**''"
proof
  have "tokenMatches (\<lambda>c. True) GlobStar (take 3 [CHR ''a'', newline, CHR ''b''])
    \<and> globMatchesWith (\<lambda>c. True) [] (drop 3 [CHR ''a'', newline, CHR ''b''])"
    by simp
  then have "globMatchesWith (\<lambda>c. True) [GlobStar] [CHR ''a'', newline, CHR ''b'']"
    unfolding globMatchesWith.simps by (intro exI [of _ 3]) simp
  then show "globMatchesAsStated [CHR ''a'', newline, CHR ''b''] ''**''"
    by (simp add: globMatchesAsStated_def)
next
  show "\<not> matchesGlobPattern [CHR ''a'', newline, CHR ''b''] ''**''"
    by code_simp
qed

section \<open>The filter on diffs whose headers parse\<close>

text \<open>
  On a diff made of a preamble and of segments whose header lines parse, the output is the
  preamble, then some of the segments, each whole and in the order of the input, then the
  summary block, which is there only when a file was excluded.
\<close>

lemma flush_result:
  "result (flushCurrentFile opts s) = result s
   \<or> result (flushCurrentFile opts s) = result s @ currentFileLines s"
  by (simp add: flushCurrentFile_def Let_def)

lemma flush_empty: "currentFileLines s = [] \<Longrightarrow> flushCurrentFile opts s = s"
  by (simp add: flushCurrentFile_def)

lemma segments_kept_whole:
  "\<exists>kept. subseq kept segs
     \<and> result (flushCurrentFile opts (foldl (loadSegment opts) s segs))
         = result (flushCurrentFile opts s) @ concat (map segmentLines kept)"
proof (induction segs arbitrary: s)
  case Nil
  show ?case by (intro exI [of _ "[]"]) simp
next
  case (Cons seg segs)
  obtain kept where kept: "subseq kept segs"
    "result (flushCurrentFile opts (foldl (loadSegment opts) (loadSegment opts s seg) segs))
       = result (flushCurrentFile opts (loadSegment opts s seg)) @ concat (map segmentLines kept)"
    using Cons [of "loadSegment opts s seg"] by blast
  have "result (flushCurrentFile opts (loadSegment opts s seg)) = result (flushCurrentFile opts s)
    \<or> result (flushCurrentFile opts (loadSegment opts s seg))
        = result (flushCurrentFile opts s) @ segmentLines seg"
    using flush_result [of opts "loadSegment opts s seg"] by (simp add: loadSegment_def)
  then show ?case
  proof
    assume "result (flushCurrentFile opts (loadSegment opts s seg))
      = result (flushCurrentFile opts s)"
    then show ?thesis using kept by (intro exI [of _ kept]) (simp add: list_emb_Cons)
  next
    assume "result (flushCurrentFile opts (loadSegment opts s seg))
      = result (flushCurrentFile opts s) @ segmentLines seg"
    then show ?thesis using kept by (intro exI [of _ "seg # kept"]) simp
  qed
qed

lemma filterDiff_keeps_whole_segments:
  assumes "splitLines d = pre @ concat (map segmentLines segs)"
    and "list_all (\<lambda>l. \<not> isFileHeader l) pre"
    and "list_all wellFormedSegment segs"
    and "anyOptionSet opts"
  shows "\<exists>kept summary. subseq kept segs
    \<and> filtered (filterDiff d opts) = joinLines (pre @ concat (map segmentLines kept) @ summary)
    \<and> (summary = [] \<or> excludedFiles (stats (filterDiff d opts)) > 0)"
proof -
  define final where "final = flushCurrentFile opts
     (foldl (loadSegment opts) (initialState\<lparr>result := pre\<rparr>) segs)"
  have loop: "flushCurrentFile opts (foldl (filterStep opts) initialState (splitLines d)) = final"
    unfolding final_def assms(1) using filterLoop_segments [OF assms(2) assms(3)] by simp
  have out: "filterDiff d opts
    = \<lparr>filtered = joinLines (result final @ filterSummary opts final),
       stats = \<lparr>includedFiles = includedFiles final, excludedFiles = excludedFiles final,
                totalLines = totalLines final\<rparr>\<rparr>"
    using assms(4) by (auto simp: filterDiff_def Let_def loop anyOptionSet_def)
  obtain kept where kept: "subseq kept segs"
    "result final = pre @ concat (map segmentLines kept)"
    using segments_kept_whole [of segs opts "initialState\<lparr>result := pre\<rparr>"]
    by (auto simp: final_def flush_empty initialState_def)
  have "filterSummary opts final = [] \<or> excludedFiles final > 0"
    by (simp add: filterSummary_def)
  then show ?thesis
    using kept out by (intro exI [of _ kept] exI [of _ "filterSummary opts final"]) auto
qed

text \<open>
  On such a diff, when every segment passes the patterns and no cutoff fires, the output is
  the input, no file is excluded and every segment is counted as included.
\<close>

lemma withinLimits_butlast: "withinLimits opts (segs @ [seg]) \<Longrightarrow> withinLimits opts segs"
  by (auto simp: withinLimits_def split: option.splits)

lemma flush_loadedState:
  assumes "withinLimits opts segs" and "list_all (segmentPasses opts) segs"
  shows "flushCurrentFile opts (loadedState pre segs)
    = \<lparr>includedFiles = length segs, excludedFiles = 0,
       totalLines = length (concat (map segmentLines segs)),
       result = pre @ concat (map segmentLines segs),
       currentFileLines = [],
       currentFileName = (if segs = [] then [] else segmentName (last segs)),
       reachedMaxFiles = False, reachedMaxLines = False\<rparr>"
proof (cases segs rule: rev_cases)
  case Nil
  then show ?thesis by (simp add: loadedState_def flushCurrentFile_def)
next
  case (snoc init seg)
  have pass: "fileMatchesPatterns (segmentName seg) (includePaths opts) (excludePaths opts)"
    using assms(2) snoc by (simp add: segmentPasses_def)
  have ne: "segmentLines seg \<noteq> []" by (simp add: segmentLines_def)
  show ?thesis
    using pass ne assms(1) snoc
    by (cases "maxFiles opts"; cases "maxTotalLines opts")
      (auto simp: loadedState_def flushCurrentFile_def Let_def withinLimits_def)
qed

lemma foldl_loadSegment:
  assumes "withinLimits opts segs" and "list_all (segmentPasses opts) segs"
  shows "foldl (loadSegment opts) (initialState\<lparr>result := pre\<rparr>) segs = loadedState pre segs"
  using assms
proof (induction segs rule: rev_induct)
  case Nil
  show ?case by (simp add: loadedState_def initialState_def)
next
  case (snoc seg segs)
  have w: "withinLimits opts segs" using snoc.prems(1) by (rule withinLimits_butlast)
  have p: "list_all (segmentPasses opts) segs" using snoc.prems(2) by simp
  have "foldl (loadSegment opts) (initialState\<lparr>result := pre\<rparr>) (segs @ [seg])
    = loadSegment opts (loadedState pre segs) seg"
    using snoc.IH [OF w p] by simp
  also have "\<dots> = (flushCurrentFile opts (loadedState pre segs))
      \<lparr>currentFileName := segmentName seg, currentFileLines := segmentLines seg\<rparr>"
    by (simp only: loadSegment_def)
  also have "\<dots> = loadedState pre (segs @ [seg])"
    unfolding flush_loadedState [OF w p] by (simp add: loadedState_def)
  finally show ?case .
qed

lemma filterDiff_passthrough:
  assumes "splitLines d = pre @ concat (map segmentLines segs)"
    and "list_all (\<lambda>l. \<not> isFileHeader l) pre"
    and "list_all wellFormedSegment segs"
    and "anyOptionSet opts"
    and "list_all (segmentPasses opts) segs"
    and "withinLimits opts segs"
  shows "filterDiff d opts
    = \<lparr>filtered = d,
       stats = \<lparr>includedFiles = length segs, excludedFiles = 0,
                totalLines = length (concat (map segmentLines segs))\<rparr>\<rparr>"
proof -
  define final where "final = flushCurrentFile opts
     (foldl (loadSegment opts) (initialState\<lparr>result := pre\<rparr>) segs)"
  have loop: "flushCurrentFile opts (foldl (filterStep opts) initialState (splitLines d)) = final"
    unfolding final_def assms(1) using filterLoop_segments [OF assms(2) assms(3)] by simp
  have out: "filterDiff d opts
    = \<lparr>filtered = joinLines (result final @ filterSummary opts final),
       stats = \<lparr>includedFiles = includedFiles final, excludedFiles = excludedFiles final,
                totalLines = totalLines final\<rparr>\<rparr>"
    using assms(4) by (auto simp: filterDiff_def Let_def loop anyOptionSet_def)
  have final: "final = \<lparr>includedFiles = length segs, excludedFiles = 0,
       totalLines = length (concat (map segmentLines segs)),
       result = pre @ concat (map segmentLines segs),
       currentFileLines = [],
       currentFileName = (if segs = [] then [] else segmentName (last segs)),
       reachedMaxFiles = False, reachedMaxLines = False\<rparr>"
    unfolding final_def
    by (simp only: foldl_loadSegment [OF assms(6) assms(5)] flush_loadedState [OF assms(6) assms(5)])
  have "joinLines (result final @ filterSummary opts final) = d"
    using joinLines_splitLines [of d] by (simp add: final filterSummary_def assms(1))
  then show ?thesis by (simp add: out) (simp add: final)
qed

end
